theory Spec2Isabelle
  imports Main "HOL-Library.AList" "HOL-Library.Sublist"
begin

section \<open>Python values and strings\<close>

text \<open>
  The values that reach the validators (decoded JSON scalars) and the cells of the
  spreadsheet are Python strings, integers, booleans or \<open>None\<close>. A Python \<open>str\<close> is
  modelled as a \<open>string\<close> whose characters are read as the code points 0 to 255;
  floats, lists and nested objects are left out of the value type.
\<close>

datatype pyval = PStr string | PInt int | PBool bool | PNone

type_synonym pydict = "(string \<times> pyval) list"

text \<open>\<open>str(n)\<close> for a natural number: its decimal digits.\<close>

definition digit_char :: "nat \<Rightarrow> char" where
  "digit_char n = ''0123456789'' ! n"

function str_nat :: "nat \<Rightarrow> string" where
  "str_nat n = (if n < 10 then [digit_char n]
                else str_nat (n div 10) @ [digit_char (n mod 10)])"
  by pat_completeness auto
termination
  by (relation "measure (\<lambda>n. n)") auto

declare str_nat.simps [simp del]

definition str_int :: "int \<Rightarrow> string" where
  "str_int i = (if i < 0 then CHR ''-'' # str_nat (nat (- i)) else str_nat (nat i))"

text \<open>Python's \<open>str(v)\<close>.\<close>

fun py_str :: "pyval \<Rightarrow> string" where
  "py_str (PStr s) = s"
| "py_str (PInt i) = str_int i"
| "py_str (PBool b) = (if b then ''True'' else ''False'')"
| "py_str PNone = ''None''"

text \<open>Python's truth value of \<open>v\<close>, as tested by \<open>if not value\<close>.\<close>

fun truthy :: "pyval \<Rightarrow> bool" where
  "truthy (PStr s) = (s \<noteq> [])"
| "truthy (PInt i) = (i \<noteq> 0)"
| "truthy (PBool b) = b"
| "truthy PNone = False"

text \<open>\<open>d.get(k, default)\<close>.\<close>

definition dict_get :: "pydict \<Rightarrow> string \<Rightarrow> pyval \<Rightarrow> pyval" where
  "dict_get d k dflt = (case map_of d k of None \<Rightarrow> dflt | Some v \<Rightarrow> v)"

subsection \<open>Character classes\<close>

definition code :: "char \<Rightarrow> nat" where
  "code c = of_char c"

definition in_range :: "char \<Rightarrow> char \<times> char \<Rightarrow> bool" where
  "in_range c r = (code (fst r) \<le> code c \<and> code c \<le> code (snd r))"

definition is_upper :: "char \<Rightarrow> bool" where
  "is_upper c = (65 \<le> code c \<and> code c \<le> 90)"

text \<open>
  Case folding as \<open>re.IGNORECASE\<close> applies it to the ASCII letters of the patterns:
  within the code points 0 to 255 only the two ASCII cases of a letter fold together.
\<close>

definition lower :: "char \<Rightarrow> char" where
  "lower c = (if is_upper c then char_of (code c + 32) else c)"

text \<open>
  \<open>\w\<close> on a \<open>str\<close> pattern: the alphanumeric characters and the underscore. Below 128
  these are \<open>[A-Za-z0-9_]\<close>; from 128 to 255 the letters, superscript digits and
  fractions of Latin-1.
\<close>

definition is_word :: "char \<Rightarrow> bool" where
  "is_word c = (let n = code c in
     (48 \<le> n \<and> n \<le> 57) \<or> (65 \<le> n \<and> n \<le> 90) \<or> n = 95 \<or> (97 \<le> n \<and> n \<le> 122)
     \<or> n = 170 \<or> n = 178 \<or> n = 179 \<or> n = 181 \<or> n = 185 \<or> n = 186
     \<or> (188 \<le> n \<and> n \<le> 190) \<or> (192 \<le> n \<and> n \<le> 214) \<or> (216 \<le> n \<and> n \<le> 246)
     \<or> 248 \<le> n)"

text \<open>The characters \<open>str.strip()\<close> removes: those for which \<open>str.isspace()\<close> holds.\<close>

definition is_space :: "char \<Rightarrow> bool" where
  "is_space c = (let n = code c in
     (9 \<le> n \<and> n \<le> 13) \<or> (28 \<le> n \<and> n \<le> 32) \<or> n = 133 \<or> n = 160)"

definition strip :: "string \<Rightarrow> string" where
  "strip s = rev (dropWhile is_space (rev (dropWhile is_space s)))"

subsection \<open>\<open>html.escape\<close>\<close>

fun escape_char :: "char \<Rightarrow> string" where
  "escape_char c =
     (if c = CHR ''&'' then ''&amp;''
      else if c = CHR ''<'' then ''&lt;''
      else if c = CHR ''>'' then ''&gt;''
      else if c = CHR 0x22 then ''&quot;''
      else if c = CHR 0x27 then ''&#x27;''
      else [c])"

definition html_escape :: "string \<Rightarrow> string" where
  "html_escape s = concat (map escape_char s)"

section \<open>Regular expressions\<close>

text \<open>
  The patterns of \<open>validators.py\<close> are sequences of single-character items, some of
  them repeated. A pattern is a list of items; the matcher below tries the
  alternatives in the order of Python's backtracking engine (a greedy repetition takes a
  character first, a lazy one tries the rest of the pattern first) and returns the length
  of the first match found at the start of the text.
\<close>

datatype cclass =
    Lit char                        \<comment> \<open>a literal character\<close>
  | Among "(char \<times> char) list"      \<comment> \<open>\<open>[a-z...]\<close>, a list of ranges\<close>
  | NotAmong "(char \<times> char) list"   \<comment> \<open>\<open>[^...]\<close>\<close>
  | AnyChar                         \<comment> \<open>\<open>.\<close>: any character but a newline\<close>
  | WordChar                        \<comment> \<open>\<open>\w\<close>\<close>

datatype item =
    One cclass
  | Star cclass     \<comment> \<open>\<open>x*\<close>, greedy\<close>
  | Plus cclass     \<comment> \<open>\<open>x+\<close>, greedy\<close>
  | Lazy cclass     \<comment> \<open>\<open>x*?\<close>\<close>
  | Eol             \<comment> \<open>\<open>$\<close>: the end of the text, or just before a newline that ends it\<close>

type_synonym regex = "item list"

text \<open>\<open>cmatch ic k c\<close>: character \<open>c\<close> belongs to class \<open>k\<close>; \<open>ic\<close> is \<open>re.IGNORECASE\<close>.\<close>

fun cmatch :: "bool \<Rightarrow> cclass \<Rightarrow> char \<Rightarrow> bool" where
  "cmatch ic (Lit x) c = (if ic then lower c = lower x else c = x)"
| "cmatch ic (Among rs) c = (\<exists>r \<in> set rs. in_range c r)"
| "cmatch ic (NotAmong rs) c = (\<not> (\<exists>r \<in> set rs. in_range c r))"
| "cmatch ic AnyChar c = (c \<noteq> CHR 0x0A)"
| "cmatch ic WordChar c = is_word c"

fun match_here :: "bool \<Rightarrow> regex \<Rightarrow> string \<Rightarrow> nat option" where
  "match_here ic [] s = Some 0"
| "match_here ic (Eol # r) s =
     (if s = [] \<or> s = [CHR 0x0A] then match_here ic r s else None)"
| "match_here ic (One k # r) [] = None"
| "match_here ic (One k # r) (c # s) =
     (if cmatch ic k c then map_option Suc (match_here ic r s) else None)"
| "match_here ic (Plus k # r) [] = None"
| "match_here ic (Plus k # r) (c # s) =
     (if cmatch ic k c then map_option Suc (match_here ic (Star k # r) s) else None)"
| "match_here ic (Star k # r) [] = match_here ic r []"
| "match_here ic (Star k # r) (c # s) =
     (if cmatch ic k c
      then (case match_here ic (Star k # r) s of
              Some n \<Rightarrow> Some (Suc n)
            | None \<Rightarrow> match_here ic r (c # s))
      else match_here ic r (c # s))"
| "match_here ic (Lazy k # r) [] = match_here ic r []"
| "match_here ic (Lazy k # r) (c # s) =
     (case match_here ic r (c # s) of
        Some n \<Rightarrow> Some n
      | None \<Rightarrow> if cmatch ic k c then map_option Suc (match_here ic (Lazy k # r) s)
                else None)"

text \<open>\<open>re.match\<close>: a match at the start of the text.\<close>

definition re_match :: "bool \<Rightarrow> regex \<Rightarrow> string \<Rightarrow> nat option" where
  "re_match ic p s = match_here ic p s"

text \<open>\<open>re.search\<close>: the leftmost match, as (start, length).\<close>

fun re_search :: "bool \<Rightarrow> regex \<Rightarrow> string \<Rightarrow> (nat \<times> nat) option" where
  "re_search ic p [] = map_option (Pair 0) (match_here ic p [])"
| "re_search ic p (c # s) =
     (case match_here ic p (c # s) of
        Some n \<Rightarrow> Some (0, n)
      | None \<Rightarrow> map_option (\<lambda>(i, n). (Suc i, n)) (re_search ic p s))"

text \<open>
  \<open>re.sub(pattern, '', text)\<close>: every leftmost non-overlapping match is deleted. The
  counter is the number of characters of the current match still to delete; an empty
  match deletes nothing.
\<close>

fun re_sub_from :: "bool \<Rightarrow> regex \<Rightarrow> nat \<Rightarrow> string \<Rightarrow> string" where
  "re_sub_from ic p k [] = []"
| "re_sub_from ic p (Suc k) (c # s) = re_sub_from ic p k s"
| "re_sub_from ic p 0 (c # s) =
     (case match_here ic p (c # s) of
        Some (Suc n) \<Rightarrow> re_sub_from ic p n s
      | _ \<Rightarrow> c # re_sub_from ic p 0 s)"

definition re_sub :: "bool \<Rightarrow> regex \<Rightarrow> string \<Rightarrow> string" where
  "re_sub ic p s = re_sub_from ic p 0 s"

section \<open>The validators (\<open>goreal/core/validators.py\<close>)\<close>

definition MAX_TEXT_LENGTH :: nat where
  "MAX_TEXT_LENGTH = 10000"

definition MAX_ID_LENGTH :: nat where
  "MAX_ID_LENGTH = 100"

definition lits :: "string \<Rightarrow> regex" where
  "lits s = map (\<lambda>c. One (Lit c)) s"

text \<open>
  \<open>^[a-zA-Z0-9_-]+$\<close>, used with \<open>re.match\<close>, which already anchors the match at the
  start of the text.
\<close>

definition ID_CHARS :: cclass where
  "ID_CHARS = Among [(CHR ''a'', CHR ''z''), (CHR ''A'', CHR ''Z''), (CHR ''0'', CHR ''9''),
                     (CHR ''_'', CHR ''_''), (CHR ''-'', CHR ''-'')]"

definition ALLOWED_ID_PATTERN :: regex where
  "ALLOWED_ID_PATTERN = [Plus ID_CHARS, Eol]"

text \<open>\<open><script[^>]*>.*?</script>\<close>\<close>

definition script_pattern :: regex where
  "script_pattern =
     lits ''<script'' @ [Star (NotAmong [(CHR ''>'', CHR ''>'')]), One (Lit CHR ''>''),
                         Lazy AnyChar] @ lits ''</script>''"

text \<open>\<open>javascript:\<close>\<close>

definition javascript_pattern :: regex where
  "javascript_pattern = lits ''javascript:''"

text \<open>\<open>on\w+=\<close>\<close>

definition handler_pattern :: regex where
  "handler_pattern = lits ''on'' @ [Plus WordChar, One (Lit CHR ''='')]"

text \<open>\<open>expression\(\<close>\<close>

definition expression_pattern :: regex where
  "expression_pattern = lits ''expression(''"

text \<open>\<open>eval\(\<close>\<close>

definition eval_pattern :: regex where
  "eval_pattern = lits ''eval(''"

definition MALICIOUS_PATTERNS :: "regex list" where
  "MALICIOUS_PATTERNS =
     [script_pattern, javascript_pattern, handler_pattern, expression_pattern, eval_pattern]"

text \<open>
  \<open>sanitize_input\<close>: a value that is not a string is converted with \<open>str\<close>; the text is
  HTML-escaped, each pattern is deleted in turn (case-insensitively), and the result is
  stripped.
\<close>

definition sanitize_input :: "pyval \<Rightarrow> string" where
  "sanitize_input v =
     strip (foldl (\<lambda>text pattern. re_sub True pattern text)
                  (html_escape (py_str v)) MALICIOUS_PATTERNS)"

definition validate_id_format :: "string \<Rightarrow> bool \<times> string" where
  "validate_id_format identifier =
     (if identifier = [] then (False, ''ID cannot be empty'')
      else if length identifier > MAX_ID_LENGTH
        then (False, ''ID too long (max '' @ str_nat MAX_ID_LENGTH @ '' characters)'')
      else if re_match False ALLOWED_ID_PATTERN identifier = None
        then (False, ''ID contains invalid characters (only alphanumeric, underscore, and dash allowed)'')
      else (True, []))"

text \<open>The loop over \<open>MALICIOUS_PATTERNS\<close> in \<open>validate_text_field\<close>.\<close>

fun first_malicious :: "regex list \<Rightarrow> string \<Rightarrow> bool" where
  "first_malicious [] text = False"
| "first_malicious (pattern # ps) text =
     (if re_search True pattern text \<noteq> None then True else first_malicious ps text)"

definition validate_text_field :: "string \<Rightarrow> string \<Rightarrow> nat \<Rightarrow> bool \<times> string" where
  "validate_text_field text field_name max_length =
     (if text = [] then (False, field_name @ '' cannot be empty'')
      else if length text > max_length
        then (False, field_name @ '' too long (max '' @ str_nat max_length @ '' characters)'')
      else if first_malicious MALICIOUS_PATTERNS text
        then (False, field_name @ '' contains potentially malicious content'')
      else (True, []))"

text \<open>
  The first loop of \<open>validate_challenge_data\<close>: the fields are visited in the order of
  \<open>required_fields\<close>, and the first check that fails returns its message.
\<close>

fun check_challenge_fields :: "pydict \<Rightarrow> string list \<Rightarrow> string option" where
  "check_challenge_fields data [] = None"
| "check_challenge_fields data (field # fields) =
     (case map_of data field of
        None \<Rightarrow> Some (''Missing required field: '' @ field)
      | Some v \<Rightarrow>
          if \<not> truthy v then Some (''Empty value for field: '' @ field)
          else if field \<in> set [''playerId'', ''challengeId''] then
            (case validate_id_format (py_str v) of
               (False, e) \<Rightarrow> Some (field @ '': '' @ e)
             | (True, e) \<Rightarrow> check_challenge_fields data fields)
          else if field = ''playerName'' then
            (case validate_text_field (py_str v) field 100 of
               (False, e) \<Rightarrow> Some e
             | (True, e) \<Rightarrow> check_challenge_fields data fields)
          else check_challenge_fields data fields)"

text \<open>The second loop: every required field that is present is replaced by its sanitized text.\<close>

fun sanitize_fields :: "pydict \<Rightarrow> string list \<Rightarrow> pydict" where
  "sanitize_fields data [] = data"
| "sanitize_fields data (field # fields) =
     sanitize_fields
       (case map_of data field of
          None \<Rightarrow> data
        | Some v \<Rightarrow> AList.update field (PStr (sanitize_input (PStr (py_str v)))) data)
       fields"

text \<open>
  The validators return the pair (is_valid, error_message); the payload they mutate in
  place is returned as a second component. A request without a JSON body gives the
  payload \<open>None\<close>.
\<close>

definition challenge_fields :: "string list" where
  "challenge_fields = [''playerId'', ''playerName'', ''challengeId'']"

definition validate_challenge_data :: "pydict option \<Rightarrow> (bool \<times> string) \<times> pydict option" where
  "validate_challenge_data data =
     (let required_fields = challenge_fields in
      case data of
        None \<Rightarrow> ((False, ''No JSON data provided''), data)
      | Some d \<Rightarrow>
          if d = [] then ((False, ''No JSON data provided''), data)
          else (case check_challenge_fields d required_fields of
                  Some e \<Rightarrow> ((False, e), data)
                | None \<Rightarrow> ((True, []), Some (sanitize_fields d required_fields))))"

fun check_submission_fields :: "pydict \<Rightarrow> string list \<Rightarrow> string option" where
  "check_submission_fields data [] = None"
| "check_submission_fields data (field # fields) =
     (case map_of data field of
        None \<Rightarrow> Some (''Missing required field: '' @ field)
      | Some v \<Rightarrow>
          if \<not> truthy v then Some (''Empty value for field: '' @ field)
          else if field \<in> set [''playerId'', ''challengeId''] then
            (case validate_id_format (py_str v) of
               (False, e) \<Rightarrow> Some (field @ '': '' @ e)
             | (True, e) \<Rightarrow> check_submission_fields data fields)
          else if field = ''submissionText'' then
            (case validate_text_field (py_str v) field 5000 of
               (False, e) \<Rightarrow> Some e
             | (True, e) \<Rightarrow> check_submission_fields data fields)
          else check_submission_fields data fields)"

definition submission_fields :: "string list" where
  "submission_fields = [''playerId'', ''challengeId'', ''submissionText'']"

definition validate_submission_data :: "pydict option \<Rightarrow> (bool \<times> string) \<times> pydict option" where
  "validate_submission_data data =
     (let required_fields = submission_fields in
      case data of
        None \<Rightarrow> ((False, ''No JSON data provided''), data)
      | Some d \<Rightarrow>
          if d = [] then ((False, ''No JSON data provided''), data)
          else (case check_submission_fields d required_fields of
                  Some e \<Rightarrow> ((False, e), data)
                | None \<Rightarrow> ((True, []), Some (sanitize_fields d required_fields))))"

section \<open>The record store client (\<open>goreal/core/sheets_client.py\<close>)\<close>

text \<open>
  The spreadsheet service is outside the repository. It is modelled as a grid of cells
  that keeps what is written to it: the \<open>PlayerLog\<close> worksheet is a list of rows, row 1
  being the header row, and a cell read back is the value that was stored. Every request
  to the service may raise; \<open>outages\<close> lists, for the requests still to come, whether each
  one raises (a request beyond the end of the list succeeds). \<open>sheet_open\<close> is the cached
  handle \<open>self._sheet\<close>.
\<close>

record store =
  sheet_open :: bool
  playerlog :: "pyval list list"
  outages :: "bool list"

definition service_call :: "store \<Rightarrow> bool \<times> store" where
  "service_call st =
     (case outages st of
        [] \<Rightarrow> (True, st)
      | b # bs \<Rightarrow> (\<not> b, st\<lparr>outages := bs\<rparr>))"

text \<open>\<open>connect\<close>: the handle is cached on success; a failure is returned, not raised.\<close>

definition connect :: "store \<Rightarrow> bool \<times> store" where
  "connect st =
     (case service_call st of
        (True, st1) \<Rightarrow> (True, st1\<lparr>sheet_open := True\<rparr>)
      | (False, st1) \<Rightarrow> (False, st1))"

text \<open>\<open>get_worksheet\<close>: \<open>True\<close> when a worksheet handle is returned, \<open>False\<close> for \<open>None\<close>.\<close>

definition get_worksheet :: "store \<Rightarrow> bool \<times> store" where
  "get_worksheet st =
     (if \<not> sheet_open st then
        (case connect st of
           (False, st1) \<Rightarrow> (False, st1\<lparr>sheet_open := False\<rparr>)
         | (True, st1) \<Rightarrow> service_call st1)
      else service_call st)"

text \<open>
  \<open>worksheet.get_all_records()\<close>: one dictionary per row below the header, keyed by the
  header cells; a row shorter than the header reads as padded with empty strings.
\<close>

definition cell :: "pyval list \<Rightarrow> nat \<Rightarrow> pyval" where
  "cell row i = (if i < length row then row ! i else PStr [])"

definition dict_of :: "(string \<times> pyval) list \<Rightarrow> pydict" where
  "dict_of kvs = foldl (\<lambda>d (k, v). AList.update k v d) [] kvs"

definition record_of :: "pyval list \<Rightarrow> pyval list \<Rightarrow> pydict" where
  "record_of header row =
     dict_of (zip (map py_str header) (map (cell row) [0..<length header]))"

definition all_records :: "pyval list list \<Rightarrow> pydict list" where
  "all_records grid = (case grid of [] \<Rightarrow> [] | header # rows \<Rightarrow> map (record_of header) rows)"

definition get_all_records :: "store \<Rightarrow> pydict list option \<times> store" where
  "get_all_records st =
     (case service_call st of
        (False, st1) \<Rightarrow> (None, st1)
      | (True, st1) \<Rightarrow> (Some (all_records (playerlog st1)), st1))"

text \<open>
  \<open>worksheet.update_cell(row, col, value)\<close>, rows and columns counted from 1; \<open>False\<close>
  when the request raises. Writing beyond the end of a row fills the gap with empty cells.
\<close>

definition set_cell :: "nat \<Rightarrow> pyval \<Rightarrow> pyval list \<Rightarrow> pyval list" where
  "set_cell i v row = (row @ replicate (Suc i - length row) (PStr []))[i := v]"

definition update_cell :: "nat \<Rightarrow> nat \<Rightarrow> pyval \<Rightarrow> store \<Rightarrow> bool \<times> store" where
  "update_cell row col v st =
     (case service_call st of
        (False, st1) \<Rightarrow> (False, st1)
      | (True, st1) \<Rightarrow>
          if row = 0 \<or> col = 0 \<or> length (playerlog st1) < row then (False, st1)
          else (True, st1\<lparr>playerlog :=
                  (playerlog st1)[row - 1 := set_cell (col - 1) v (playerlog st1 ! (row - 1))]\<rparr>))"

text \<open>\<open>worksheet.append_row(row_data)\<close>: the row is added below the last row.\<close>

definition append_row :: "pyval list \<Rightarrow> store \<Rightarrow> bool \<times> store" where
  "append_row row_data st =
     (case service_call st of
        (False, st1) \<Rightarrow> (False, st1)
      | (True, st1) \<Rightarrow> (True, st1\<lparr>playerlog := playerlog st1 @ [row_data]\<rparr>))"

text \<open>
  \<open>log_challenge\<close>; \<open>now\<close> is the text of \<open>datetime.now().strftime(...)\<close>. Any exception
  is caught and turned into \<open>False\<close>.
\<close>

definition log_challenge ::
    "string \<Rightarrow> pyval \<Rightarrow> pyval \<Rightarrow> pyval \<Rightarrow> pyval \<Rightarrow> pyval \<Rightarrow> store \<Rightarrow> bool \<times> store" where
  "log_challenge now player_id player_name challenge_id status submission_text st =
     (case get_worksheet st of
        (False, st1) \<Rightarrow> (False, st1)
      | (True, st1) \<Rightarrow>
          (let timestamp = now;
               row_data = [PStr timestamp, PStr (py_str player_id), PStr (py_str player_name),
                           PStr (py_str challenge_id), status, submission_text]
           in append_row row_data st1))"

text \<open>The test both scans apply to a record.\<close>

definition row_matches :: "pyval \<Rightarrow> pyval \<Rightarrow> pydict \<Rightarrow> bool" where
  "row_matches player_id challenge_id record =
     (py_str (dict_get record ''PlayerID'' (PStr [])) = py_str player_id \<and>
      py_str (dict_get record ''ChallengeID'' (PStr [])) = py_str challenge_id)"

text \<open>
  The loop \<open>for idx in range(len(records) - 1, -1, -1)\<close> of \<open>update_submission\<close>: the
  third argument is \<open>idx + 1\<close>, and the result is \<open>matching_row_index\<close>.
\<close>

fun find_matching_row :: "pyval \<Rightarrow> pyval \<Rightarrow> pydict list \<Rightarrow> nat \<Rightarrow> nat option" where
  "find_matching_row player_id challenge_id records 0 = None"
| "find_matching_row player_id challenge_id records (Suc idx) =
     (if row_matches player_id challenge_id (records ! idx) then Some (idx + 2)
      else find_matching_row player_id challenge_id records idx)"

definition update_submission :: "pyval \<Rightarrow> pyval \<Rightarrow> pyval \<Rightarrow> pyval \<Rightarrow> store \<Rightarrow> bool \<times> store" where
  "update_submission player_id challenge_id submission_text status st =
     (case get_worksheet st of
        (False, st1) \<Rightarrow> (False, st1)
      | (True, st1) \<Rightarrow>
          (case get_all_records st1 of
             (None, st2) \<Rightarrow> (False, st2)
           | (Some records, st2) \<Rightarrow>
               if records = [] then (False, st2)
               else (case find_matching_row player_id challenge_id records (length records) of
                       None \<Rightarrow> (False, st2)
                     | Some matching_row_index \<Rightarrow>
                         (case update_cell matching_row_index 5 status st2 of
                            (False, st3) \<Rightarrow> (False, st3)
                          | (True, st3) \<Rightarrow>
                              (case update_cell matching_row_index 6 submission_text st3 of
                                 (False, st4) \<Rightarrow> (False, st4)
                               | (True, st4) \<Rightarrow> (True, st4))))))"




section \<open>The submit-proof handler (\<open>goreal/api/routes.py\<close>)\<close>





section \<open>Notions used in the statements\<close>

text \<open>
  The format check that \<open>validate_challenge_data\<close> applies to a field that is present
  and not empty: the identifier check for \<open>playerId\<close> and \<open>challengeId\<close>, the text
  check for \<open>playerName\<close>. The result is the error message, if the check fails.
\<close>

definition challenge_format_error :: "string \<Rightarrow> string \<Rightarrow> string option" where
  "challenge_format_error field text =
     (if field \<in> set [''playerId'', ''challengeId''] then
        (case validate_id_format text of (False, e) \<Rightarrow> Some (field @ '': '' @ e) | (True, e) \<Rightarrow> None)
      else if field = ''playerName'' then
        (case validate_text_field text field 100 of (False, e) \<Rightarrow> Some e | (True, e) \<Rightarrow> None)
      else None)"

text \<open>A field of the payload is present, not empty and passes its format check.\<close>

definition passes :: "pydict \<Rightarrow> string \<Rightarrow> bool" where
  "passes d f =
     (case map_of d f of
        None \<Rightarrow> False
      | Some v \<Rightarrow> truthy v \<and> challenge_format_error f (py_str v) = None)"


text \<open>
  One of the next \<open>n\<close> requests to the spreadsheet service raises; the request after the
  next \<open>n\<close> raises.
\<close>

definition raises_within :: "nat \<Rightarrow> store \<Rightarrow> bool" where
  "raises_within n st = (True \<in> set (take n (outages st)))"

definition raises_at :: "nat \<Rightarrow> store \<Rightarrow> bool" where
  "raises_at n st = (n < length (outages st) \<and> outages st ! n)"

text \<open>
  The requests \<open>get_worksheet\<close> makes: one to open the spreadsheet unless the handle is
  cached, and one for the worksheet.
\<close>

definition open_requests :: "store \<Rightarrow> nat" where
  "open_requests st = (if sheet_open st then 1 else 2)"

text \<open>The characters \<open>html.escape\<close> replaces.\<close>

definition special :: "char \<Rightarrow> bool" where
  "special c = (c \<in> set [CHR ''&'', CHR ''<'', CHR ''>'', CHR 0x22, CHR 0x27])"

text \<open>No item of the pattern can consume the character (and the pattern has no \<open>$\<close>).\<close>

fun item_rejects :: "bool \<Rightarrow> item \<Rightarrow> char \<Rightarrow> bool" where
  "item_rejects ic (One k) x = (\<not> cmatch ic k x)"
| "item_rejects ic (Star k) x = (\<not> cmatch ic k x)"
| "item_rejects ic (Plus k) x = (\<not> cmatch ic k x)"
| "item_rejects ic (Lazy k) x = (\<not> cmatch ic k x)"
| "item_rejects ic Eol x = False"

definition rejects :: "bool \<Rightarrow> regex \<Rightarrow> char \<Rightarrow> bool" where
  "rejects ic p x = list_all (\<lambda>i. item_rejects ic i x) p"

text \<open>No pattern of \<open>MALICIOUS_PATTERNS\<close> matches anywhere in the text.\<close>

definition clean :: "string \<Rightarrow> bool" where
  "clean t = (\<forall>p \<in> set MALICIOUS_PATTERNS. re_search True p t = None)"

section \<open>Example data\<close>

text \<open>
  A \<open>PlayerLog\<close> worksheet with three rows. The first and the last row belong to player
  7 and challenge C01 (the first stores the identifier as a number); the last row
  carries the earliest timestamp.
\<close>

definition example_store :: store where
  "example_store =
     \<lparr>sheet_open = False,
      playerlog =
        [[PStr ''Timestamp'', PStr ''PlayerID'', PStr ''PlayerName'', PStr ''ChallengeID'',
          PStr ''Status'', PStr ''SubmissionText''],
         [PStr ''2024-05-02 10:00:00'', PInt 7, PStr ''Alice'', PStr ''C01'',
          PStr ''Received'', PStr []],
         [PStr ''2024-05-02 11:00:00'', PStr ''P2'', PStr ''Bob'', PStr ''C01'',
          PStr ''Received'', PStr []],
         [PStr ''2024-05-01 09:00:00'', PStr ''7'', PStr ''Alice'', PStr ''C01'',
          PStr ''In Progress'', PStr ''draft'']],
      outages = []\<rparr>"

section \<open>Properties of the matcher\<close>

lemma rejects_Cons [simp]: "rejects ic (i # p) x = (item_rejects ic i x \<and> rejects ic p x)"
  by (simp add: rejects_def)

lemma rejects_Nil [simp]: "rejects ic [] x"
  by (simp add: rejects_def)

text \<open>A character that no item can consume ends every attempt, whatever follows it.\<close>

lemma match_here_stop:
  "rejects ic p x \<Longrightarrow> match_here ic p (u @ x # s) = match_here ic p u"
proof (induction ic p u rule: match_here.induct)
  case (8 ic k r c s)
  then show ?case by (simp split: option.splits)
next
  case (9 ic k r)
  then show ?case by (simp split: option.splits)
next
  case (10 ic k r c s)
  then show ?case by (simp split: option.splits)
qed simp_all

text \<open>A match consumes, for every mandatory single-character item, a character of its class.\<close>

lemma match_here_needs:
  "match_here ic p s = Some n \<Longrightarrow> One k \<in> set p \<Longrightarrow> \<exists>c \<in> set s. cmatch ic k c"
proof (induction ic p s arbitrary: n rule: match_here.induct)
  case (8 ic k r c s)
  then show ?case by (auto split: if_splits option.splits)
next
  case (10 ic k r c s)
  then show ?case by (auto split: if_splits option.splits)
qed (auto split: if_splits)

lemma re_search_needs:
  "One k \<in> set p \<Longrightarrow> \<forall>c \<in> set s. \<not> cmatch ic k c \<Longrightarrow> re_search ic p s = None"
proof (induction s)
  case Nil
  then show ?case
    using match_here_needs [of ic p "[]" _ k] by (cases "match_here ic p []") auto
next
  case (Cons c s)
  then show ?case
    using match_here_needs [of ic p "c # s" _ k] by (cases "match_here ic p (c # s)") auto
qed

lemma re_sub_from_id: "re_search ic p s = None \<Longrightarrow> re_sub_from ic p 0 s = s"
  by (induction s) (auto split: option.splits nat.splits)

lemma re_sub_id: "re_search ic p s = None \<Longrightarrow> re_sub ic p s = s"
  by (simp add: re_sub_def re_sub_from_id)

lemma re_search_suffix: "re_search ic p (a @ b) = None \<Longrightarrow> re_search ic p b = None"
  by (induction a) (auto split: option.splits)

lemma re_search_found: "match_here ic p t \<noteq> None \<Longrightarrow> re_search ic p (a @ t) \<noteq> None"
  by (induction a) (cases t; auto split: option.splits)+

lemma re_search_trim:
  "re_search ic p (v @ ws) = None \<Longrightarrow> \<forall>w \<in> set ws. rejects ic p w \<Longrightarrow>
   re_search ic p v = None"
proof (induction v)
  case Nil
  then show ?case
    using match_here_stop [of ic p _ "[]"] by (cases ws) (auto split: option.splits)
next
  case (Cons c v)
  then show ?case
    using match_here_stop [of ic p _ "c # v"] by (cases ws) (auto split: option.splits)
qed

subsection \<open>Case folding and character classes\<close>

lemmas char_eval = lower_def is_upper_def code_def is_space_def is_word_def in_range_def Let_def

lemma code_lower_upper: "is_upper c \<Longrightarrow> code (lower c) = code c + 32"
  by (simp add: lower_def is_upper_def code_def)

lemma lower_eq_nonletter:
  assumes "\<not> is_upper y" "\<not> (97 \<le> code y \<and> code y \<le> 122)"
  shows "lower c = y \<longleftrightarrow> c = y"
proof (cases "is_upper c")
  case True
  then have "code (lower c) = code c + 32" by (rule code_lower_upper)
  with True assms have "lower c \<noteq> y" by (auto simp: is_upper_def)
  moreover from True assms have "c \<noteq> y" by auto
  ultimately show ?thesis by simp
next
  case False
  then show ?thesis by (simp add: lower_def)
qed

lemma lower_space: "is_space w \<Longrightarrow> lower w = w"
  by (auto simp: lower_def is_space_def is_upper_def Let_def)

lemma space_not_word: "is_space w \<Longrightarrow> \<not> is_word w"
  by (auto simp: is_space_def is_word_def Let_def)

subsection \<open>Stripping\<close>

lemma strip_decomp: "\<exists>a b. s = a @ strip s @ b \<and> (\<forall>w \<in> set b. is_space w)"
proof -
  define t where "t = dropWhile is_space s"
  have 1: "s = takeWhile is_space s @ t" by (simp add: t_def)
  have "rev (rev t) = rev (takeWhile is_space (rev t) @ dropWhile is_space (rev t))"
    by (simp only: takeWhile_dropWhile_id)
  then have "t = rev (dropWhile is_space (rev t)) @ rev (takeWhile is_space (rev t))"
    by (simp only: rev_rev_ident rev_append)
  then have 3: "t = strip s @ rev (takeWhile is_space (rev t))"
    by (simp only: strip_def t_def)
  have 4: "\<forall>w \<in> set (rev (takeWhile is_space (rev t))). is_space w"
    by (auto dest: set_takeWhileD)
  have "s = takeWhile is_space s @ strip s @ rev (takeWhile is_space (rev t))"
    using 1 3 by metis
  with 4 show ?thesis by blast
qed

lemma strip_keeps_clean:
  assumes "re_search ic p s = None" "\<And>w. is_space w \<Longrightarrow> rejects ic p w"
  shows "re_search ic p (strip s) = None"
proof -
  obtain a b where s: "s = a @ strip s @ b" and b: "\<forall>w \<in> set b. is_space w"
    using strip_decomp by blast
  from assms(1) s have "re_search ic p (a @ strip s @ b) = None" by metis
  then have "re_search ic p (strip s @ b) = None" by (rule re_search_suffix)
  then show ?thesis by (rule re_search_trim) (use b assms(2) in auto)
qed

lemma set_strip: "set (strip s) \<subseteq> set s"
proof -
  obtain a b where s: "s = a @ strip s @ b" using strip_decomp by blast
  have "set (strip s) \<subseteq> set (a @ strip s @ b)" by auto
  with s show ?thesis by metis
qed

lemma strip_no_leading: "dropWhile is_space (strip s) = strip s"
proof (cases "strip s")
  case Nil
  then show ?thesis by simp
next
  case (Cons c t)
  define u where "u = dropWhile is_space s"
  have "strip s = rev (dropWhile is_space (rev u))" by (simp add: strip_def u_def)
  with Cons have "rev (dropWhile is_space (rev u)) = c # t" by simp
  then have "hd (rev (dropWhile is_space (rev u))) = c" by simp
  moreover have "u = rev (dropWhile is_space (rev u)) @ rev (takeWhile is_space (rev u))"
    by (metis rev_append rev_rev_ident takeWhile_dropWhile_id)
  ultimately have "hd u = c"
    using \<open>rev (dropWhile is_space (rev u)) = c # t\<close> by (metis hd_append2 list.distinct(1))
  moreover have "u \<noteq> []"
    using \<open>rev (dropWhile is_space (rev u)) = c # t\<close> by auto
  ultimately have "\<not> is_space c" using hd_dropWhile [of is_space s] by (simp add: u_def)
  with Cons show ?thesis by simp
qed

lemma strip_no_trailing: "dropWhile is_space (rev (strip s)) = rev (strip s)"
  by (simp add: strip_def)

subsection \<open>Escaping\<close>

lemma html_escape_Nil [simp]: "html_escape [] = []"
  by (simp add: html_escape_def)

lemma html_escape_append: "html_escape (a @ b) = html_escape a @ html_escape b"
  by (simp add: html_escape_def)

lemma html_escape_Cons_plain: "\<not> special c \<Longrightarrow> html_escape (c # s) = c # html_escape s"
  by (auto simp: html_escape_def special_def)

lemma html_escape_plain: "\<forall>c \<in> set u. \<not> special c \<Longrightarrow> html_escape u = u"
  by (induction u) (simp_all add: html_escape_Cons_plain)

lemma special_cases:
  "special c \<Longrightarrow>
   c = CHR ''&'' \<or> c = CHR ''<'' \<or> c = CHR ''>'' \<or> c = CHR 0x22 \<or> c = CHR 0x27"
  by (simp add: special_def)

lemma html_escape_Cons_special: "special c \<Longrightarrow> \<exists>e. html_escape (c # s) = CHR ''&'' # e"
  by (auto simp: html_escape_def special_def)

lemma no_special_escape_char:
  "x \<in> set [CHR ''<'', CHR ''>'', CHR 0x22, CHR 0x27] \<Longrightarrow> x \<notin> set (escape_char c)"
  by auto

lemma no_special_escape:
  "x \<in> set [CHR ''<'', CHR ''>'', CHR 0x22, CHR 0x27] \<Longrightarrow> x \<notin> set (html_escape s)"
  unfolding html_escape_def using no_special_escape_char [of x]
  by (induction s) (simp_all del: escape_char.simps)

lemma match_here_escape:
  assumes "\<And>x. special x \<Longrightarrow> rejects ic p x"
  shows "match_here ic p (html_escape s) = match_here ic p s"
proof (cases "\<forall>c \<in> set s. \<not> special c")
  case True
  then show ?thesis by (simp add: html_escape_plain)
next
  case False
  define u where "u = takeWhile (\<lambda>c. \<not> special c) s"
  define v where "v = dropWhile (\<lambda>c. \<not> special c) s"
  have s: "s = u @ v" by (simp add: u_def v_def)
  have u: "\<forall>c \<in> set u. \<not> special c" by (auto simp: u_def dest: set_takeWhileD)
  from False have "v \<noteq> []" by (auto simp: v_def)
  then obtain x v' where v: "v = x # v'" by (cases v) auto
  have x: "special x"
    using v hd_dropWhile [of "\<lambda>c. \<not> special c" s] \<open>v \<noteq> []\<close> by (auto simp: v_def)
  obtain e where e: "html_escape (x # v') = CHR ''&'' # e"
    using html_escape_Cons_special [OF x] by blast
  have amp: "special CHR ''&''" by (simp add: special_def)
  have "match_here ic p (html_escape s) = match_here ic p (u @ CHR ''&'' # e)"
    by (simp add: s v html_escape_append html_escape_plain [OF u] e)
  also have "\<dots> = match_here ic p u" by (rule match_here_stop [OF assms [OF amp]])
  also have "\<dots> = match_here ic p (u @ x # v')"
    by (rule match_here_stop [OF assms [OF x], symmetric])
  finally show ?thesis by (simp add: s v)
qed

lemma escape_keeps_clean:
  assumes sp: "\<And>x. special x \<Longrightarrow> rejects ic p x"
    and ent: "\<And>c t. special c \<Longrightarrow> re_search ic p t = None \<Longrightarrow>
                 re_search ic p (escape_char c @ t) = None"
  shows "re_search ic p s = None \<Longrightarrow> re_search ic p (html_escape s) = None"
proof (induction s)
  case Nil
  then show ?case by simp
next
  case (Cons c s)
  from Cons.prems have here: "match_here ic p (c # s) = None"
    and rest: "re_search ic p s = None"
    by (auto split: option.splits)
  have IH: "re_search ic p (html_escape s) = None" by (rule Cons.IH [OF rest])
  show ?case
  proof (cases "special c")
    case True
    have "html_escape (c # s) = escape_char c @ html_escape s" by (simp add: html_escape_def)
    moreover have "re_search ic p (escape_char c @ html_escape s) = None"
      by (rule ent [OF True IH])
    ultimately show ?thesis by simp
  next
    case False
    have "match_here ic p (html_escape (c # s)) = None"
      using match_here_escape [of ic p "c # s"] sp here by simp
    with False IH show ?thesis by (simp add: html_escape_Cons_plain)
  qed
qed

subsection \<open>The five patterns\<close>

lemma cmatch_lt: "cmatch True (Lit CHR ''<'') c \<longleftrightarrow> c = CHR ''<''"
proof -
  have l: "lower CHR ''<'' = CHR ''<''" by (simp add: char_eval)
  have "lower c = CHR ''<'' \<longleftrightarrow> c = CHR ''<''"
    by (rule lower_eq_nonletter) (simp_all add: char_eval)
  then show ?thesis by (simp add: l)
qed

lemma script_has_lt: "One (Lit CHR ''<'') \<in> set script_pattern"
  by (simp add: script_pattern_def lits_def)

lemma no_lt_no_cmatch: "CHR ''<'' \<notin> set s \<Longrightarrow> \<forall>c\<in>set s. \<not> cmatch True (Lit CHR ''<'') c"
  unfolding cmatch_lt by (rule ballI) (rule notI, simp)

lemma script_needs_lt: "CHR ''<'' \<notin> set s \<Longrightarrow> re_search True script_pattern s = None"
  by (rule re_search_needs [OF script_has_lt no_lt_no_cmatch])

lemma javascript_escape:
  "re_search True javascript_pattern s = None \<Longrightarrow>
   re_search True javascript_pattern (html_escape s) = None"
proof (rule escape_keeps_clean)
  fix x assume "special x"
  from special_cases [OF this] show "rejects True javascript_pattern x"
    by (elim disjE) (simp_all add: javascript_pattern_def lits_def char_eval)
next
  fix c t assume "special c" "re_search True javascript_pattern t = None"
  from special_cases [OF this(1)] this(2)
  show "re_search True javascript_pattern (escape_char c @ t) = None"
    by (elim disjE) (simp_all add: javascript_pattern_def lits_def char_eval)
qed

lemma handler_escape:
  "re_search True handler_pattern s = None \<Longrightarrow>
   re_search True handler_pattern (html_escape s) = None"
proof (rule escape_keeps_clean)
  fix x assume "special x"
  from special_cases [OF this] show "rejects True handler_pattern x"
    by (elim disjE) (simp_all add: handler_pattern_def lits_def char_eval)
next
  fix c t assume "special c" "re_search True handler_pattern t = None"
  from special_cases [OF this(1)] this(2)
  show "re_search True handler_pattern (escape_char c @ t) = None"
    by (elim disjE) (simp_all add: handler_pattern_def lits_def char_eval)
qed

lemma expression_escape:
  "re_search True expression_pattern s = None \<Longrightarrow>
   re_search True expression_pattern (html_escape s) = None"
proof (rule escape_keeps_clean)
  fix x assume "special x"
  from special_cases [OF this] show "rejects True expression_pattern x"
    by (elim disjE) (simp_all add: expression_pattern_def lits_def char_eval)
next
  fix c t assume "special c" "re_search True expression_pattern t = None"
  from special_cases [OF this(1)] this(2)
  show "re_search True expression_pattern (escape_char c @ t) = None"
    by (elim disjE) (simp_all add: expression_pattern_def lits_def char_eval)
qed

lemma eval_escape:
  "re_search True eval_pattern s = None \<Longrightarrow>
   re_search True eval_pattern (html_escape s) = None"
proof (rule escape_keeps_clean)
  fix x assume "special x"
  from special_cases [OF this] show "rejects True eval_pattern x"
    by (elim disjE) (simp_all add: eval_pattern_def lits_def char_eval)
next
  fix c t assume "special c" "re_search True eval_pattern t = None"
  from special_cases [OF this(1)] this(2)
  show "re_search True eval_pattern (escape_char c @ t) = None"
    by (elim disjE) (simp_all add: eval_pattern_def lits_def char_eval)
qed

lemma rejects_space_javascript: "is_space w \<Longrightarrow> rejects True javascript_pattern w"
  by (simp add: javascript_pattern_def lits_def lower_space) (simp add: char_eval, auto)

lemma rejects_space_handler: "is_space w \<Longrightarrow> rejects True handler_pattern w"
  by (simp add: handler_pattern_def lits_def lower_space space_not_word)
     (simp add: char_eval, auto)

lemma rejects_space_expression: "is_space w \<Longrightarrow> rejects True expression_pattern w"
  by (simp add: expression_pattern_def lits_def lower_space) (simp add: char_eval, auto)

lemma rejects_space_eval: "is_space w \<Longrightarrow> rejects True eval_pattern w"
  by (simp add: eval_pattern_def lits_def lower_space) (simp add: char_eval, auto)

section \<open>Properties of the validators\<close>

lemma first_malicious_iff:
  "\<not> first_malicious ps t \<longleftrightarrow> (\<forall>p \<in> set ps. re_search True p t = None)"
proof (induction ps)
  case Nil
  then show ?case by simp
next
  case (Cons p ps)
  then show ?case by (cases "re_search True p t") simp_all
qed

lemma clean_iff: "clean t \<longleftrightarrow> \<not> first_malicious MALICIOUS_PATTERNS t"
  by (simp only: clean_def first_malicious_iff)

lemma clean_parts:
  "clean t \<longleftrightarrow>
     re_search True script_pattern t = None \<and> re_search True javascript_pattern t = None \<and>
     re_search True handler_pattern t = None \<and> re_search True expression_pattern t = None \<and>
     re_search True eval_pattern t = None"
  by (simp add: clean_def MALICIOUS_PATTERNS_def)

lemma clean_escape: "clean t \<Longrightarrow> clean (html_escape t)"
  unfolding clean_parts
  using no_special_escape [of "CHR ''<''" t]
  by (simp add: script_needs_lt javascript_escape handler_escape expression_escape eval_escape)

lemma clean_strip: "clean t \<Longrightarrow> CHR ''<'' \<notin> set t \<Longrightarrow> clean (strip t)"
  unfolding clean_parts
proof (intro conjI)
  assume "CHR ''<'' \<notin> set t"
  with set_strip [of t] have "CHR ''<'' \<notin> set (strip t)" by (rule contra_subsetD)
  then show "re_search True script_pattern (strip t) = None" by (rule script_needs_lt)
qed (simp_all add: strip_keeps_clean rejects_space_javascript rejects_space_handler
       rejects_space_expression rejects_space_eval)

lemma sanitize_clean:
  assumes "clean (py_str v)"
  shows "sanitize_input v = strip (html_escape (py_str v))" and "clean (sanitize_input v)"
proof -
  have c: "clean (html_escape (py_str v))" using assms by (rule clean_escape)
  then show 1: "sanitize_input v = strip (html_escape (py_str v))"
    by (simp add: sanitize_input_def MALICIOUS_PATTERNS_def clean_parts re_sub_id)
  have "CHR ''<'' \<notin> set (html_escape (py_str v))"
    using no_special_escape [of "CHR ''<''"] by simp
  with c show "clean (sanitize_input v)" unfolding 1 by (rule clean_strip)
qed

subsection \<open>Identifiers\<close>

lemma id_tail:
  "match_here False [Star k, Eol] s = Some n \<Longrightarrow>
   \<forall>c \<in> set s. cmatch False k c \<or> c = CHR 0x0A"
proof (induction s arbitrary: n)
  case Nil
  then show ?case by simp
next
  case (Cons c s)
  show ?case
  proof (cases "cmatch False k c")
    case True
    show ?thesis
    proof (cases "match_here False [Star k, Eol] s")
      case None
      with Cons.prems True have "c # s = [CHR 0x0A]" by (simp split: if_splits)
      then show ?thesis by simp
    next
      case (Some m)
      with Cons.IH True show ?thesis by simp
    qed
  next
    case False
    with Cons.prems have "c # s = [CHR 0x0A]" by (simp split: if_splits)
    then show ?thesis by simp
  qed
qed

lemma accepted_id_chars:
  assumes "fst (validate_id_format s)"
  shows "\<forall>c \<in> set s. cmatch False ID_CHARS c \<or> c = CHR 0x0A"
proof -
  from assms obtain n where n: "match_here False [Plus ID_CHARS, Eol] s = Some n"
    by (auto simp: validate_id_format_def re_match_def ALLOWED_ID_PATTERN_def split: if_splits)
  show ?thesis
  proof (cases s)
    case Nil
    then show ?thesis by simp
  next
    case (Cons c t)
    with n have c: "cmatch False ID_CHARS c"
      and "\<exists>m. match_here False [Star ID_CHARS, Eol] t = Some m"
      by (auto split: if_splits)
    then have "\<forall>c \<in> set t. cmatch False ID_CHARS c \<or> c = CHR 0x0A"
      using id_tail by blast
    with c Cons show ?thesis by simp
  qed
qed

lemma cmatch_nonletter:
  assumes "\<not> is_upper y" "\<not> (97 \<le> code y \<and> code y \<le> 122)"
  shows "cmatch True (Lit y) c \<longleftrightarrow> c = y"
proof -
  have l: "lower y = y" using assms(1) by (simp add: lower_def)
  have "cmatch True (Lit y) c \<longleftrightarrow> lower c = y" by (simp add: l)
  also have "\<dots> \<longleftrightarrow> c = y" by (rule lower_eq_nonletter [OF assms])
  finally show ?thesis .
qed

lemma id_lacks:
  assumes "fst (validate_id_format s)" "\<not> cmatch False ID_CHARS y" "y \<noteq> CHR 0x0A"
    "\<not> is_upper y" "\<not> (97 \<le> code y \<and> code y \<le> 122)" "One (Lit y) \<in> set p"
  shows "re_search True p s = None"
proof (rule re_search_needs [OF assms(6)], rule ballI)
  fix c assume "c \<in> set s"
  with accepted_id_chars [OF assms(1)] have "cmatch False ID_CHARS c \<or> c = CHR 0x0A" by simp
  with assms(2,3) have "c \<noteq> y" by metis
  then show "\<not> cmatch True (Lit y) c" by (simp only: cmatch_nonletter [OF assms(4,5)] not_False_eq_True)
qed

lemma id_clean: "fst (validate_id_format s) \<Longrightarrow> clean s"
  unfolding clean_parts
proof (intro conjI)
  assume a: "fst (validate_id_format s)"
  show "re_search True script_pattern s = None"
    by (rule id_lacks [OF a, of "CHR ''<''"])
       (simp_all add: ID_CHARS_def char_eval script_pattern_def lits_def)
  show "re_search True javascript_pattern s = None"
    by (rule id_lacks [OF a, of "CHR '':''"])
       (simp_all add: ID_CHARS_def char_eval javascript_pattern_def lits_def)
  show "re_search True handler_pattern s = None"
    by (rule id_lacks [OF a, of "CHR ''=''"])
       (simp_all add: ID_CHARS_def char_eval handler_pattern_def lits_def)
  show "re_search True expression_pattern s = None"
    by (rule id_lacks [OF a, of "CHR ''(''"])
       (simp_all add: ID_CHARS_def char_eval expression_pattern_def lits_def)
  show "re_search True eval_pattern s = None"
    by (rule id_lacks [OF a, of "CHR ''(''"])
       (simp_all add: ID_CHARS_def char_eval eval_pattern_def lits_def)
qed

lemma text_clean: "fst (validate_text_field t f n) \<Longrightarrow> clean t"
  by (simp add: validate_text_field_def clean_iff split: if_splits)

lemma format_ok_clean:
  "f \<in> set challenge_fields \<Longrightarrow> challenge_format_error f t = None \<Longrightarrow> clean t"
  using id_clean [of t] text_clean [of t f 100]
  by (auto simp: challenge_fields_def challenge_format_error_def split: prod.splits bool.splits)

subsection \<open>The two loops of \<open>validate_challenge_data\<close>\<close>

lemma check_challenge_step:
  "check_challenge_fields d (f # fs) =
     (case map_of d f of
        None \<Rightarrow> Some (''Missing required field: '' @ f)
      | Some v \<Rightarrow>
          if \<not> truthy v then Some (''Empty value for field: '' @ f)
          else (case challenge_format_error f (py_str v) of
                  Some e \<Rightarrow> Some e
                | None \<Rightarrow> check_challenge_fields d fs))"
  by (auto simp: challenge_format_error_def split: option.splits prod.splits bool.splits)

text \<open>
  What \<open>validate_id_format\<close> accepts: between 1 and 100 characters, all of them
  identifier characters, except that the last one may be a newline after at least one
  identifier character.
\<close>

lemma id_tail_complete:
  assumes "\<forall>c \<in> set b. cmatch False k c" "\<not> cmatch False k (CHR 0x0A)"
  shows "match_here False [Star k, Eol] b \<noteq> None"
    and "match_here False [Star k, Eol] (b @ [CHR 0x0A]) \<noteq> None"
  using assms by (induction b) auto

lemma id_tail_sound:
  assumes "match_here False [Star k, Eol] s = Some n" "\<not> cmatch False k (CHR 0x0A)"
  shows "\<exists>b. (\<forall>c \<in> set b. cmatch False k c) \<and> (s = b \<or> s = b @ [CHR 0x0A])"
  using assms
proof (induction s arbitrary: n)
  case Nil
  then show ?case by simp
next
  case (Cons c s)
  show ?case
  proof (cases "cmatch False k c")
    case True
    show ?thesis
    proof (cases "match_here False [Star k, Eol] s")
      case None
      with Cons.prems True have "c # s = [CHR 0x0A]" by (simp split: if_splits)
      then show ?thesis by (intro exI [of _ "[]"]) simp
    next
      case (Some m)
      from Cons.IH [OF Some Cons.prems(2)] obtain b where
        b: "\<forall>c \<in> set b. cmatch False k c" "s = b \<or> s = b @ [CHR 0x0A]" by blast
      with True show ?thesis by (intro exI [of _ "c # b"]) auto
    qed
  next
    case False
    with Cons.prems have "c # s = [CHR 0x0A]" by (simp split: if_splits)
    then show ?thesis by (intro exI [of _ "[]"]) simp
  qed
qed

lemma newline_not_id_char: "\<not> cmatch False ID_CHARS (CHR 0x0A)"
  by (simp add: ID_CHARS_def char_eval)

lemma validate_id_format_accepts_iff:
  "fst (validate_id_format s) \<longleftrightarrow>
     length s \<le> 100 \<and>
     (\<exists>b. b \<noteq> [] \<and> (\<forall>c \<in> set b. cmatch False ID_CHARS c) \<and> (s = b \<or> s = b @ [CHR 0x0A]))"
proof
  assume a: "fst (validate_id_format s)"
  then have len: "length s \<le> 100" and ne: "s \<noteq> []"
    and "\<exists>n. match_here False [Plus ID_CHARS, Eol] s = Some n"
    by (auto simp: validate_id_format_def MAX_ID_LENGTH_def re_match_def ALLOWED_ID_PATTERN_def
             split: if_splits)
  then obtain c t n where s: "s = c # t" and c: "cmatch False ID_CHARS c"
    and t: "match_here False [Star ID_CHARS, Eol] t = Some n"
    by (cases s) (auto split: if_splits)
  from id_tail_sound [OF t newline_not_id_char] obtain b where
    b: "\<forall>c \<in> set b. cmatch False ID_CHARS c" "t = b \<or> t = b @ [CHR 0x0A]" by blast
  have "c # b \<noteq> [] \<and> (\<forall>x \<in> set (c # b). cmatch False ID_CHARS x) \<and>
        (s = c # b \<or> s = (c # b) @ [CHR 0x0A])"
    using b c s by auto
  with len show "length s \<le> 100 \<and>
     (\<exists>b. b \<noteq> [] \<and> (\<forall>c \<in> set b. cmatch False ID_CHARS c) \<and> (s = b \<or> s = b @ [CHR 0x0A]))"
    by blast
next
  assume "length s \<le> 100 \<and>
     (\<exists>b. b \<noteq> [] \<and> (\<forall>c \<in> set b. cmatch False ID_CHARS c) \<and> (s = b \<or> s = b @ [CHR 0x0A]))"
  then obtain b where len: "length s \<le> 100" and b: "b \<noteq> []"
    "\<forall>c \<in> set b. cmatch False ID_CHARS c" "s = b \<or> s = b @ [CHR 0x0A]" by blast
  from b(1) obtain c t where ct: "b = c # t" by (cases b) auto
  with b(2) have c: "cmatch False ID_CHARS c" and t: "\<forall>x \<in> set t. cmatch False ID_CHARS x"
    by simp_all
  note T = id_tail_complete [OF t newline_not_id_char]
  have "match_here False [Plus ID_CHARS, Eol] s \<noteq> None"
  proof (cases "s = b")
    case True
    with ct c T(1) show ?thesis by auto
  next
    case False
    with b(3) have "s = c # (t @ [CHR 0x0A])" by (simp add: ct)
    with c T(2) show ?thesis by auto
  qed
  moreover have "s \<noteq> []" using b(1,3) by auto
  ultimately show "fst (validate_id_format s)"
    using len
    by (auto simp: validate_id_format_def MAX_ID_LENGTH_def re_match_def ALLOWED_ID_PATTERN_def)
qed


lemma check_challenge_None:
  "check_challenge_fields d fs = None \<longleftrightarrow> (\<forall>f \<in> set fs. passes d f)"
proof (induction fs)
  case Nil
  then show ?case by simp
next
  case (Cons f fs)
  then show ?case
    by (auto simp: check_challenge_step passes_def simp del: check_challenge_fields.simps
             split: option.splits)
qed

lemma map_of_sanitize_fields:
  "distinct fs \<Longrightarrow>
   map_of (sanitize_fields d fs) f =
     (if f \<in> set fs
      then map_option (\<lambda>v. PStr (sanitize_input (PStr (py_str v)))) (map_of d f)
      else map_of d f)"
proof (induction fs arbitrary: d)
  case Nil
  then show ?case by simp
next
  case (Cons g fs)
  then show ?case by (cases "map_of d g") (auto simp: update_conv')
qed

lemma accepted_challenge:
  assumes "validate_challenge_data (Some d) = ((True, e), d')"
  shows "d' = Some (sanitize_fields d challenge_fields)" and "\<forall>f \<in> set challenge_fields. passes d f"
  using assms check_challenge_None [of d challenge_fields]
  by (auto simp: validate_challenge_data_def split: if_splits option.splits)

lemma accepted_challenge_field:
  assumes "validate_challenge_data (Some d) = ((True, e), d')" "f \<in> set challenge_fields"
  shows "\<exists>v. map_of d f = Some v \<and> clean (py_str v) \<and>
           d' = Some (sanitize_fields d challenge_fields) \<and>
           map_of (sanitize_fields d challenge_fields) f = Some (PStr (sanitize_input (PStr (py_str v))))"
proof -
  from accepted_challenge [OF assms(1)] assms(2)
  have d': "d' = Some (sanitize_fields d challenge_fields)" and "passes d f" by auto
  then obtain v where v: "map_of d f = Some v" "challenge_format_error f (py_str v) = None"
    by (auto simp: passes_def split: option.splits)
  have "clean (py_str v)" using assms(2) v(2) by (rule format_ok_clean)
  moreover have "distinct challenge_fields" by (simp add: challenge_fields_def)
  ultimately show ?thesis using v(1) d' assms(2) by (simp add: map_of_sanitize_fields)
qed

section \<open>Properties of the store client\<close>

lemma raises_within_0 [simp]: "\<not> raises_within 0 st"
  by (simp add: raises_within_def)

lemma raises_sheet_open [simp]:
  "raises_within n (st\<lparr>sheet_open := b\<rparr>) = raises_within n st"
  "raises_at n (st\<lparr>sheet_open := b\<rparr>) = raises_at n st"
  by (simp_all add: raises_within_def raises_at_def)

lemma raises_playerlog [simp]:
  "raises_within n (st\<lparr>playerlog := g\<rparr>) = raises_within n st"
  "raises_at n (st\<lparr>playerlog := g\<rparr>) = raises_at n st"
  by (simp_all add: raises_within_def raises_at_def)

lemma service_call_cases:
  assumes "service_call st = (ok, st')"
  shows "playerlog st' = playerlog st" "sheet_open st' = sheet_open st"
    "raises_within (Suc n) st \<longleftrightarrow> \<not> ok \<or> raises_within n st'"
    "raises_at 0 st \<longleftrightarrow> \<not> ok" "raises_at (Suc n) st \<longleftrightarrow> raises_at n st'"
  using assms
  by (cases "outages st"; auto simp: service_call_def raises_within_def raises_at_def)+

lemma get_worksheet_cases:
  assumes "get_worksheet st = (ok, st')"
  shows "playerlog st' = playerlog st"
    and "raises_within (open_requests st + n) st \<longleftrightarrow> \<not> ok \<or> raises_within n st'"
    and "ok \<Longrightarrow> raises_at (open_requests st + n) st \<longleftrightarrow> raises_at n st'"
    and "ok \<Longrightarrow> sheet_open st'"
proof -
  have "playerlog st' = playerlog st \<and>
        (raises_within (open_requests st + n) st \<longleftrightarrow> \<not> ok \<or> raises_within n st') \<and>
        (ok \<longrightarrow> raises_at (open_requests st + n) st = raises_at n st') \<and>
        (ok \<longrightarrow> sheet_open st')"
  proof (cases "sheet_open st")
    case True
    with assms have "service_call st = (ok, st')" by (simp add: get_worksheet_def)
    from service_call_cases [OF this] True show ?thesis
      by (simp add: open_requests_def)
  next
    case False
    obtain ok1 st1 where 1: "service_call st = (ok1, st1)" by (cases "service_call st") auto
    note c1 = service_call_cases [OF 1]
    show ?thesis
    proof (cases ok1)
      case True
      with assms False 1 have 2: "service_call (st1\<lparr>sheet_open := True\<rparr>) = (ok, st')"
        by (simp add: get_worksheet_def connect_def)
      from service_call_cases [OF 2] c1 True False show ?thesis
        by (simp add: open_requests_def)
    next
      case f: False
      with assms False 1 have "ok = False" "st' = st1\<lparr>sheet_open := False\<rparr>"
        by (simp_all add: get_worksheet_def connect_def)
      with c1 f False show ?thesis by (simp add: open_requests_def)
    qed
  qed
  then show "playerlog st' = playerlog st"
    and "raises_within (open_requests st + n) st \<longleftrightarrow> \<not> ok \<or> raises_within n st'"
    and "ok \<Longrightarrow> raises_at (open_requests st + n) st \<longleftrightarrow> raises_at n st'"
    and "ok \<Longrightarrow> sheet_open st'"
    by simp_all
qed

lemma get_all_records_cases:
  assumes "get_all_records st = (res, st')"
  shows "playerlog st' = playerlog st"
    and "sheet_open st' = sheet_open st"
    and "raises_within (Suc n) st \<longleftrightarrow> res = None \<or> raises_within n st'"
    and "res \<noteq> None \<Longrightarrow> res = Some (all_records (playerlog st))"
    and "res \<noteq> None \<Longrightarrow> raises_at (Suc n) st \<longleftrightarrow> raises_at n st'"
proof -
  obtain ok st1 where 1: "service_call st = (ok, st1)" by (cases "service_call st") auto
  from assms 1 service_call_cases [OF 1]
  show "playerlog st' = playerlog st"
    and "sheet_open st' = sheet_open st"
    and "raises_within (Suc n) st \<longleftrightarrow> res = None \<or> raises_within n st'"
    and "res \<noteq> None \<Longrightarrow> res = Some (all_records (playerlog st))"
    and "res \<noteq> None \<Longrightarrow> raises_at (Suc n) st \<longleftrightarrow> raises_at n st'"
    by (cases ok; auto simp: get_all_records_def)+
qed

lemma update_cell_cases:
  assumes "update_cell row col v st = (ok, st')" "0 < row" "0 < col" "row \<le> length (playerlog st)"
  shows "raises_within (Suc n) st \<longleftrightarrow> \<not> ok \<or> raises_within n st'"
    and "raises_at 0 st \<longleftrightarrow> \<not> ok"
    and "raises_at (Suc n) st \<longleftrightarrow> raises_at n st'"
    and "ok \<Longrightarrow> playerlog st' =
           (playerlog st)[row - 1 := set_cell (col - 1) v (playerlog st ! (row - 1))]"
    and "\<not> ok \<Longrightarrow> playerlog st' = playerlog st"
    and "sheet_open st' = sheet_open st"
proof -
  obtain ok1 st1 where 1: "service_call st = (ok1, st1)" by (cases "service_call st") auto
  from assms 1 service_call_cases [OF 1]
  show "raises_within (Suc n) st \<longleftrightarrow> \<not> ok \<or> raises_within n st'"
    and "raises_at 0 st \<longleftrightarrow> \<not> ok"
    and "raises_at (Suc n) st \<longleftrightarrow> raises_at n st'"
    and "ok \<Longrightarrow> playerlog st' =
           (playerlog st)[row - 1 := set_cell (col - 1) v (playerlog st ! (row - 1))]"
    and "\<not> ok \<Longrightarrow> playerlog st' = playerlog st"
    and "sheet_open st' = sheet_open st"
    by (cases ok1; auto simp: update_cell_def)+
qed

lemma append_row_cases:
  assumes "append_row row_data st = (ok, st')"
  shows "playerlog st' = (if ok then playerlog st @ [row_data] else playerlog st)"
proof -
  obtain ok1 st1 where 1: "service_call st = (ok1, st1)" by (cases "service_call st") auto
  from assms 1 service_call_cases(1) [OF 1] show ?thesis
    by (cases ok1) (auto simp: append_row_def)
qed

subsection \<open>The two scans\<close>





lemma find_matching_row_Some:
  "find_matching_row pid cid recs n = Some k \<longleftrightarrow>
     (\<exists>i < n. k = i + 2 \<and> row_matches pid cid (recs ! i) \<and>
               (\<forall>j. i < j \<and> j < n \<longrightarrow> \<not> row_matches pid cid (recs ! j)))"
  (is "?L n = ?R n")
proof (induction n)
  case 0
  then show ?case by simp
next
  case (Suc n)
  show ?case
  proof (cases "row_matches pid cid (recs ! n)")
    case True
    have "?R (Suc n) \<longleftrightarrow> k = n + 2"
    proof
      assume "?R (Suc n)"
      then obtain i where i: "i < Suc n" "k = i + 2"
        "\<forall>j. i < j \<and> j < Suc n \<longrightarrow> \<not> row_matches pid cid (recs ! j)" by blast
      have "\<not> i < n"
      proof
        assume "i < n"
        with i(3) have "\<not> row_matches pid cid (recs ! n)" by simp
        with True show False by simp
      qed
      with i(1) have "i = n" by simp
      with i(2) show "k = n + 2" by simp
    next
      assume "k = n + 2"
      with True show "?R (Suc n)" by (intro exI [of _ n]) auto
    qed
    with True show ?thesis by auto
  next
    case False
    have "?R (Suc n) \<longleftrightarrow> ?R n"
    proof
      assume "?R (Suc n)"
      then obtain i where i: "i < Suc n" "k = i + 2" "row_matches pid cid (recs ! i)"
        "\<forall>j. i < j \<and> j < Suc n \<longrightarrow> \<not> row_matches pid cid (recs ! j)" by blast
      from i(1,3) False have "i < n" by (cases "i = n") auto
      with i show "?R n" by (intro exI [of _ i]) simp
    next
      assume "?R n"
      then obtain i where i: "i < n" "k = i + 2" "row_matches pid cid (recs ! i)"
        "\<forall>j. i < j \<and> j < n \<longrightarrow> \<not> row_matches pid cid (recs ! j)" by blast
      have "\<forall>j. i < j \<and> j < Suc n \<longrightarrow> \<not> row_matches pid cid (recs ! j)"
        using i(4) False by (auto simp: less_Suc_eq)
      with i show "?R (Suc n)" by (intro exI [of _ i]) simp
    qed
    with False Suc.IH show ?thesis by simp
  qed
qed

lemma find_matching_row_last:
  assumes "recs = pre @ r # post" "row_matches pid cid r" "\<forall>x \<in> set post. \<not> row_matches pid cid x"
  shows "find_matching_row pid cid recs (length recs) = Some (length pre + 2)"
proof -
  have 1: "length pre < length recs" by (simp add: assms(1))
  have 2: "recs ! length pre = r" by (simp add: assms(1))
  have 3: "\<not> row_matches pid cid (recs ! j)" if "length pre < j" "j < length recs" for j
  proof -
    define m where "m = j - Suc (length pre)"
    from that have m: "j = length pre + Suc m" "m < length post"
      by (simp_all add: m_def assms(1))
    then have "recs ! j = post ! m" by (simp add: assms(1) nth_append)
    with m(2) assms(3) show ?thesis by simp
  qed
  have "\<exists>i < length recs. length pre + 2 = i + 2 \<and> row_matches pid cid (recs ! i) \<and>
          (\<forall>j. i < j \<and> j < length recs \<longrightarrow> \<not> row_matches pid cid (recs ! j))"
    using 1 2 3 assms(2) by (intro exI [of _ "length pre"]) simp
  then show ?thesis by (simp only: find_matching_row_Some)
qed



subsection \<open>Cells\<close>

lemma length_set_cell: "length (set_cell i v row) = max (length row) (Suc i)"
  by (auto simp: set_cell_def)

lemma cell_set_cell: "cell (set_cell i v row) j = (if j = i then v else cell row j)"
proof (cases "j = i")
  case True
  then show ?thesis by (auto simp: cell_def set_cell_def)
next
  case False
  show ?thesis
  proof (cases "j < length row")
    case True
    with False show ?thesis by (simp add: cell_def set_cell_def nth_append)
  next
    case False
    with \<open>j \<noteq> i\<close> show ?thesis by (auto simp: cell_def set_cell_def nth_append)
  qed
qed

lemma length_all_records: "length (all_records g) = length g - 1"
  by (cases g) (simp_all add: all_records_def)

subsection \<open>\<open>update_submission\<close> step by step\<close>

text \<open>
  With a last matching record at index \<open>length pre\<close>, the row written is row
  \<open>length pre + 2\<close> of the worksheet.
\<close>

lemma update_submission_unfold:
  assumes w: "get_worksheet st = (True, st1)"
    and r: "get_all_records st1 = (Some recs, st2)"
    and m: "recs = pre @ r # post" "row_matches pid cid r" "\<forall>x \<in> set post. \<not> row_matches pid cid x"
  shows "update_submission pid cid text status st =
     (case update_cell (Suc (Suc (length pre))) 5 status st2 of
        (False, st3) \<Rightarrow> (False, st3)
      | (True, st3) \<Rightarrow>
          (case update_cell (Suc (Suc (length pre))) 6 text st3 of
             (False, st4) \<Rightarrow> (False, st4)
           | (True, st4) \<Rightarrow> (True, st4)))"
proof -
  have "recs \<noteq> []" using m(1) by simp
  moreover have "find_matching_row pid cid recs (length recs) = Some (Suc (Suc (length pre)))"
    using find_matching_row_last [OF m] by simp
  ultimately show ?thesis using w r by (simp add: update_submission_def)
qed


lemma update_submission_match:
  fixes pid cid ptext status :: pyval and st :: store and pre :: "pydict list"
  defines "k \<equiv> Suc (length pre)"
  defines "out \<equiv> update_submission pid cid ptext status st"
  assumes m: "all_records (playerlog st) = pre @ r # post" "row_matches pid cid r"
    "\<forall>x \<in> set post. \<not> row_matches pid cid x"
  shows "fst out = False \<longleftrightarrow> raises_within (open_requests st + 3) st"
    and "\<not> raises_within (open_requests st + 3 + n) st \<Longrightarrow>
           playerlog (snd out) =
             (playerlog st)[k := set_cell 5 ptext (set_cell 4 status (playerlog st ! k))] \<and>
           sheet_open (snd out) \<and> \<not> raises_within n (snd out)"
    and "\<not> raises_within (open_requests st + 2) st \<Longrightarrow> raises_at (open_requests st + 2) st \<Longrightarrow>
           fst out = False \<and>
           playerlog (snd out) = (playerlog st)[k := set_cell 4 status (playerlog st ! k)]"
proof -
  obtain ok1 st1 where w: "get_worksheet st = (ok1, st1)" by (cases "get_worksheet st") auto
  obtain res st2 where r: "get_all_records st1 = (res, st2)"
    by (cases "get_all_records st1") auto
  obtain ok3 st3 where u1: "update_cell (Suc k) 5 status st2 = (ok3, st3)"
    by (cases "update_cell (Suc k) 5 status st2") auto
  obtain ok4 st4 where u2: "update_cell (Suc k) 6 ptext st3 = (ok4, st4)"
    by (cases "update_cell (Suc k) 6 ptext st3") auto
  note W = get_worksheet_cases [OF w]
  note R = get_all_records_cases [OF r]
  have p2: "playerlog st2 = playerlog st" using W(1) R(1) by simp
  have "length (all_records (playerlog st)) = length (playerlog st) - 1"
    by (rule length_all_records)
  then have len: "Suc k \<le> length (playerlog st)" by (simp add: m(1) k_def)
  have len2: "Suc k \<le> length (playerlog st2)" using len p2 by simp
  have pos: "0 < Suc k" "0 < (5::nat)" "0 < (6::nat)" by simp_all
  note U1 = update_cell_cases [OF u1 pos(1,2) len2]
  have p3: "length (playerlog st3) = length (playerlog st)"
    using U1(4,5) p2 by (cases ok3) simp_all
  have len3: "Suc k \<le> length (playerlog st3)" using len p3 by simp
  note U2 = update_cell_cases [OF u2 pos(1,3) len3]
  have rw: "raises_within (open_requests st + Suc (Suc (Suc j))) st \<longleftrightarrow>
         \<not> ok1 \<or> res = None \<or> \<not> ok3 \<or> \<not> ok4 \<or> raises_within j st4" for j
    using W(2) [of "Suc (Suc (Suc j))"] R(3) [of "Suc (Suc j)"] U1(1) [of "Suc j"] U2(1) [of j]
    by blast
  have rw2: "raises_within (open_requests st + Suc (Suc 0)) st \<longleftrightarrow> \<not> ok1 \<or> res = None \<or> \<not> ok3"
    using W(2) [of "Suc (Suc 0)"] R(3) [of "Suc 0"] U1(1) [of 0] by simp
  have ra: "ok1 \<Longrightarrow> res \<noteq> None \<Longrightarrow> ok3 \<Longrightarrow> raises_at (open_requests st + Suc (Suc 0)) st \<longleftrightarrow> \<not> ok4"
    using W(3) [of "Suc (Suc 0)"] R(5) [of "Suc 0"] U1(3) [of 0] U2(2) by simp
  have unf: "out = (case update_cell (Suc k) 5 status st2 of
        (False, st3) \<Rightarrow> (False, st3)
      | (True, st3) \<Rightarrow>
          (case update_cell (Suc k) 6 ptext st3 of
             (False, st4) \<Rightarrow> (False, st4)
           | (True, st4) \<Rightarrow> (True, st4)))"
    if "ok1" "res \<noteq> None"
  proof -
    from that(2) R(4) W(1) have "res = Some (all_records (playerlog st))" by simp
    with w r that(1) have "get_worksheet st = (True, st1)"
      "get_all_records st1 = (Some (all_records (playerlog st)), st2)" by simp_all
    from update_submission_unfold [OF this m] show ?thesis unfolding out_def k_def .
  qed
  have fail1: "fst out = False" if "\<not> ok1"
    using that w by (simp add: out_def update_submission_def)
  have fail2: "fst out = False" if "ok1" "res = None"
    using that w r by (simp add: out_def update_submission_def)
  have "fst out = False \<longleftrightarrow> \<not> ok1 \<or> res = None \<or> \<not> ok3 \<or> \<not> ok4"
  proof (cases "ok1 \<and> res \<noteq> None")
    case True
    with unf u1 u2 show ?thesis by (cases ok3; cases ok4; simp)
  next
    case False
    with fail1 fail2 show ?thesis by auto
  qed
  with rw [of 0] show "fst out = False \<longleftrightarrow> raises_within (open_requests st + 3) st"
    by (simp add: numeral_3_eq_3)
  show "playerlog (snd out) =
             (playerlog st)[k := set_cell 5 ptext (set_cell 4 status (playerlog st ! k))] \<and>
           sheet_open (snd out) \<and> \<not> raises_within n (snd out)"
    if "\<not> raises_within (open_requests st + 3 + n) st"
  proof -
    from that have "\<not> raises_within (open_requests st + Suc (Suc (Suc n))) st"
      by (simp add: numeral_3_eq_3)
    with rw [of n] have ok: "ok1" "res \<noteq> None" "ok3" "ok4" and q: "\<not> raises_within n st4"
      by simp_all
    from unf [OF ok(1,2)] u1 u2 ok have out: "out = (True, st4)" by simp
    have "playerlog st3 = (playerlog st)[k := set_cell 4 status (playerlog st ! k)]"
      using U1(4) ok(3) p2 by simp
    moreover have "playerlog st4 = (playerlog st3)[k := set_cell 5 ptext (playerlog st3 ! k)]"
      using U2(4) ok(4) by simp
    moreover have "k < length (playerlog st)" using len by simp
    ultimately have "playerlog st4 =
        (playerlog st)[k := set_cell 5 ptext (set_cell 4 status (playerlog st ! k))]" by simp
    moreover have "sheet_open st4" using W(4) R(2) U1(6) U2(6) ok(1) by simp
    ultimately show ?thesis using out q by simp
  qed
  show "fst out = False \<and>
           playerlog (snd out) = (playerlog st)[k := set_cell 4 status (playerlog st ! k)]"
    if "\<not> raises_within (open_requests st + 2) st" "raises_at (open_requests st + 2) st"
  proof -
    from that(1) rw2 have ok: "ok1" "res \<noteq> None" "ok3" by (simp_all add: numeral_2_eq_2)
    with ra that(2) have "\<not> ok4" by (simp add: numeral_2_eq_2)
    with unf [OF ok(1,2)] u1 u2 ok have out: "out = (False, st4)" by simp
    have "playerlog st3 = (playerlog st)[k := set_cell 4 status (playerlog st ! k)]"
      using U1(4) ok(3) p2 by simp
    moreover have "playerlog st4 = playerlog st3" using U2(5) \<open>\<not> ok4\<close> by simp
    ultimately show ?thesis using out by simp
  qed
qed

subsection \<open>\<open>get_player_status\<close>\<close>






section \<open>Claims about the validators\<close>




text \<open>
  C4: for every payload accepted by \<open>validate_challenge_data\<close>, each of the three fields
  is replaced by the stripped HTML escape of its text; the stored value has no match of
  any of the injection patterns and none of the characters \<open><\<close>, \<open>>\<close>, \<open>"\<close>, \<open>'\<close>.
\<close>

theorem accepted_challenge_payload_neutralized:
  assumes "validate_challenge_data (Some d) = ((True, e), d')" and "f \<in> set challenge_fields"
  shows "\<exists>v d''. map_of d f = Some v \<and> d' = Some d'' \<and>
           map_of d'' f = Some (PStr (strip (html_escape (py_str v)))) \<and>
           (\<forall>p \<in> set MALICIOUS_PATTERNS.
              re_search True p (strip (html_escape (py_str v))) = None) \<and>
           (\<forall>x \<in> set [CHR ''<'', CHR ''>'', CHR 0x22, CHR 0x27].
              x \<notin> set (strip (html_escape (py_str v))))"
proof -
  from accepted_challenge_field [OF assms] obtain v where
    v: "map_of d f = Some v" "clean (py_str v)" "d' = Some (sanitize_fields d challenge_fields)"
       "map_of (sanitize_fields d challenge_fields) f = Some (PStr (sanitize_input (PStr (py_str v))))"
    by blast
  have c: "clean (py_str (PStr (py_str v)))" using v(2) by simp
  have s: "sanitize_input (PStr (py_str v)) = strip (html_escape (py_str v))"
    using sanitize_clean(1) [OF c] by simp
  have "clean (strip (html_escape (py_str v)))" using sanitize_clean(2) [OF c] s by simp
  then have m: "\<forall>p \<in> set MALICIOUS_PATTERNS.
              re_search True p (strip (html_escape (py_str v))) = None"
    by (simp only: clean_def)
  have "\<forall>x \<in> set [CHR ''<'', CHR ''>'', CHR 0x22, CHR 0x27].
              x \<notin> set (strip (html_escape (py_str v)))"
    using no_special_escape [of _ "py_str v"] set_strip [of "html_escape (py_str v)"]
    by (meson subsetD)
  with v(1,3,4) s m show ?thesis by simp
qed

theorem accepted_challenge_payload_neutralized_witness:
  "\<exists>v d''. map_of [(''playerId'', PStr ''P1''), (''playerName'', PStr ''<b>A&B''),
                    (''challengeId'', PStr ''C01'')] ''playerName'' = Some v \<and>
     Some [(''playerId'', PStr ''P1''), (''playerName'', PStr ''&lt;b&gt;A&amp;B''),
           (''challengeId'', PStr ''C01'')] = Some d'' \<and>
     map_of d'' ''playerName'' = Some (PStr (strip (html_escape (py_str v)))) \<and>
     re_search True handler_pattern (strip (html_escape (py_str v))) = None"
proof -
  let ?d = "[(''playerId'', PStr ''P1''), (''playerName'', PStr ''<b>A&B''),
             (''challengeId'', PStr ''C01'')]"
  let ?d' = "[(''playerId'', PStr ''P1''), (''playerName'', PStr ''&lt;b&gt;A&amp;B''),
              (''challengeId'', PStr ''C01'')]"
  have 1: "validate_challenge_data (Some ?d) = ((True, []), Some ?d')"
    by code_simp
  have 2: "''playerName'' \<in> set challenge_fields" by (simp add: challenge_fields_def)
  have 3: "handler_pattern \<in> set MALICIOUS_PATTERNS" by (simp add: MALICIOUS_PATTERNS_def)
  from accepted_challenge_payload_neutralized [OF 1 2] obtain v d'' where
    "map_of ?d ''playerName'' = Some v" "Some ?d' = Some d''"
    "map_of d'' ''playerName'' = Some (PStr (strip (html_escape (py_str v))))"
    "\<forall>p \<in> set MALICIOUS_PATTERNS. re_search True p (strip (html_escape (py_str v))) = None"
    by blast
  with 3 show ?thesis by blast
qed

text \<open>
  C7: the claim says an identifier is accepted if and only if it is non-empty, at most
  100 characters long and made of characters of \<open>[A-Za-z0-9_-]\<close> only. The two rejected
  examples of the claim are rejected, but the code accepts \<open>abc\<close> followed by a newline,
  which is not in that set: \<open>$\<close> in \<open>ALLOWED_ID_PATTERN\<close> also matches just before a
  final newline.
\<close>

theorem validate_id_format_accepts_trailing_newline:
  "validate_id_format ''abc\<newline>'' = (True, []) \<and>
   \<not> cmatch False ID_CHARS CHR ''\<newline>'' \<and>
   fst (validate_id_format ''bad id!'') = False \<and>
   fst (validate_id_format (replicate 101 CHR ''a'')) = False"
  by code_simp

text \<open>
  C8, as stated, at a concrete payload: a \<open>submissionText\<close> of 5025 characters that
  contains \<open><script>alert(1)</script>\<close>. It is rejected by the length check, which
  comes first, and not by the malicious-pattern check.
\<close>

theorem long_script_submission_counterexample:
  "fst (validate_submission_data
          (Some [(''playerId'', PStr ''P1''), (''challengeId'', PStr ''C01''),
                 (''submissionText'',
                  PStr (replicate 5000 CHR ''a'' @ ''<script>alert(1)</script>''))])) =
     (False, ''submissionText too long (max 5000 characters)'') \<and>
   fst (validate_submission_data
          (Some [(''playerId'', PStr ''P1''), (''challengeId'', PStr ''C01''),
                 (''submissionText'',
                  PStr (replicate 5000 CHR ''a'' @ ''<script>alert(1)</script>''))])) \<noteq>
     (False, ''submissionText contains potentially malicious content'')"
proof -
  define long where "long = replicate 5000 CHR ''a'' @ ''<script>alert(1)</script>''"
  have 1: "validate_id_format ''P1'' = (True, [])" by code_simp
  have 2: "validate_id_format ''C01'' = (True, [])" by code_simp
  have 3: "str_nat 5000 = ''5000''" by (simp add: str_nat.simps digit_char_def)
  have 4: "5000 < length long" by (simp add: long_def)
  then have 5: "long \<noteq> []" by auto
  have "fst (validate_submission_data
          (Some [(''playerId'', PStr ''P1''), (''challengeId'', PStr ''C01''),
                 (''submissionText'', PStr long)])) =
     (False, ''submissionText too long (max 5000 characters)'')"
    by (simp add: validate_submission_data_def submission_fields_def 1 2 3 4 5
          validate_text_field_def)
  then show ?thesis unfolding long_def by simp
qed

text \<open>
  C8 (amended): for every submission payload with valid identifiers whose
  \<open>submissionText\<close> is a string, the verdict is that of \<open>validate_text_field\<close> with the
  bound 5000 (after the empty-value check), so the identifier pattern is not applied to it.
  If the text contains \<open><script>alert(1)</script>\<close> and has at most 5000 characters,
  the payload is rejected by the malicious-pattern check and is left as it was; if the text
  has more than 5000 characters, it is rejected by the length check.
\<close>

theorem script_submission_rejected:
  assumes "map_of d ''playerId'' = Some p" "truthy p" "fst (validate_id_format (py_str p))"
    and "map_of d ''challengeId'' = Some c" "truthy c" "fst (validate_id_format (py_str c))"
    and "map_of d ''submissionText'' = Some (PStr text)"
  shows "fst (validate_submission_data (Some d)) =
           (if text = [] then (False, ''Empty value for field: submissionText'')
            else validate_text_field text ''submissionText'' 5000) \<and>
         ((\<exists>pre post. text = pre @ ''<script>alert(1)</script>'' @ post) \<and> length text \<le> 5000 \<longrightarrow>
            validate_submission_data (Some d) =
              ((False, ''submissionText contains potentially malicious content''), Some d)) \<and>
         (5000 < length text \<longrightarrow>
            validate_submission_data (Some d) =
              ((False, ''submissionText too long (max '' @ str_nat 5000 @ '' characters)''), Some d))"
proof -
  from assms(7) have d: "d \<noteq> []" by auto
  obtain e1 where 1: "validate_id_format (py_str p) = (True, e1)"
    using assms(3) by (cases "validate_id_format (py_str p)") auto
  obtain e2 where 2: "validate_id_format (py_str c) = (True, e2)"
    using assms(6) by (cases "validate_id_format (py_str c)") auto
  have chk: "check_submission_fields d submission_fields =
          (if text = [] then Some ''Empty value for field: submissionText''
           else case validate_text_field text ''submissionText'' 5000 of
                  (False, e) \<Rightarrow> Some e | (True, e) \<Rightarrow> None)"
    using assms(1,2,4,5,7) 1 2
    by (simp add: submission_fields_def split: prod.splits bool.splits)
  have ok: "\<And>e. validate_text_field text ''submissionText'' 5000 = (True, e) \<Longrightarrow> e = []"
    by (auto simp: validate_text_field_def split: if_splits)
  have A: "fst (validate_submission_data (Some d)) =
           (if text = [] then (False, ''Empty value for field: submissionText'')
            else validate_text_field text ''submissionText'' 5000)"
    using d chk ok
    by (auto simp: validate_submission_data_def split: prod.splits bool.splits)
  have B: "validate_submission_data (Some d) =
              ((False, ''submissionText contains potentially malicious content''), Some d)"
    if "text = pre @ ''<script>alert(1)</script>'' @ post" "length text \<le> 5000" for pre post
  proof -
    have "match_here True script_pattern (''<script>alert(1)</script>'' @ post) = Some 25"
      by (simp add: script_pattern_def lits_def char_eval)
    then have "re_search True script_pattern text \<noteq> None"
      unfolding that(1) by (intro re_search_found) simp
    then have "first_malicious MALICIOUS_PATTERNS text" by (simp add: MALICIOUS_PATTERNS_def)
    moreover have "text \<noteq> []" using that(1) by simp
    ultimately show ?thesis
      using d chk that(2) by (simp add: validate_submission_data_def validate_text_field_def)
  qed
  have C: "validate_submission_data (Some d) =
              ((False, ''submissionText too long (max '' @ str_nat 5000 @ '' characters)''), Some d)"
    if "5000 < length text"
  proof -
    have "text \<noteq> []" using that by auto
    then show ?thesis
      using d chk that by (simp add: validate_submission_data_def validate_text_field_def)
  qed
  from A B C show ?thesis by blast
qed

theorem script_submission_rejected_witness:
  "validate_submission_data
     (Some [(''playerId'', PInt 12345), (''challengeId'', PStr ''C01''),
            (''submissionText'', PStr ''hi <script>alert(1)</script>'')]) =
     ((False, ''submissionText contains potentially malicious content''),
      Some [(''playerId'', PInt 12345), (''challengeId'', PStr ''C01''),
            (''submissionText'', PStr ''hi <script>alert(1)</script>'')])"
proof -
  let ?d = "[(''playerId'', PInt 12345), (''challengeId'', PStr ''C01''),
             (''submissionText'', PStr ''hi <script>alert(1)</script>'')]"
  have 1: "map_of ?d ''playerId'' = Some (PInt 12345)" by simp
  have 2: "truthy (PInt 12345)" by simp
  have "py_str (PInt 12345) = ''12345''"
    by (simp add: str_int_def str_nat.simps digit_char_def)
  moreover have "fst (validate_id_format ''12345'')" by code_simp
  ultimately have 3: "fst (validate_id_format (py_str (PInt 12345)))" by simp
  have 4: "map_of ?d ''challengeId'' = Some (PStr ''C01'')" by simp
  have 5: "truthy (PStr ''C01'')" by simp
  have 6: "fst (validate_id_format (py_str (PStr ''C01'')))" by code_simp
  have 7: "map_of ?d ''submissionText'' = Some (PStr ''hi <script>alert(1)</script>'')" by simp
  have 8: "\<exists>pre post. ''hi <script>alert(1)</script>'' = pre @ ''<script>alert(1)</script>'' @ post"
    by (rule exI [of _ "''hi ''"], rule exI [of _ "[]"]) simp
  have 9: "length ''hi <script>alert(1)</script>'' \<le> 5000" by simp
  note r = script_submission_rejected [OF 1 2 3 4 5 6 7]
  show ?thesis by (rule mp [OF conjunct1 [OF conjunct2 [OF r]] conjI [OF 8 9]])
qed

text \<open>
  C9: a \<open>playerName\<close> that is a single space passes the checks of
  \<open>validate_challenge_data\<close> and is stored as the empty string; every value
  \<open>sanitize_input\<close> returns has no leading and no trailing whitespace, and so has every
  field stored by an accepted payload.
\<close>

theorem sanitized_fields_are_trimmed:
  "validate_challenge_data
     (Some [(''playerId'', PStr ''P1''), (''playerName'', PStr '' ''),
            (''challengeId'', PStr ''C01'')]) =
     ((True, []), Some [(''playerId'', PStr ''P1''), (''playerName'', PStr []),
                        (''challengeId'', PStr ''C01'')]) \<and>
   (\<forall>v. dropWhile is_space (sanitize_input v) = sanitize_input v \<and>
        dropWhile is_space (rev (sanitize_input v)) = rev (sanitize_input v)) \<and>
   (\<forall>d e d' f. validate_challenge_data (Some d) = ((True, e), Some d') \<and> f \<in> set challenge_fields \<longrightarrow>
        (\<exists>s. map_of d' f = Some (PStr s) \<and> dropWhile is_space s = s \<and>
              dropWhile is_space (rev s) = rev s))"
proof (intro conjI allI impI)
  show "validate_challenge_data
     (Some [(''playerId'', PStr ''P1''), (''playerName'', PStr '' ''),
            (''challengeId'', PStr ''C01'')]) =
     ((True, []), Some [(''playerId'', PStr ''P1''), (''playerName'', PStr []),
                        (''challengeId'', PStr ''C01'')])"
    by code_simp
next
  fix v show "dropWhile is_space (sanitize_input v) = sanitize_input v"
    by (simp only: sanitize_input_def strip_no_leading)
next
  fix v show "dropWhile is_space (rev (sanitize_input v)) = rev (sanitize_input v)"
    by (simp only: sanitize_input_def strip_no_trailing)
next
  fix d e d' f
  assume "validate_challenge_data (Some d) = ((True, e), Some d') \<and> f \<in> set challenge_fields"
  then have a: "validate_challenge_data (Some d) = ((True, e), Some d')"
    and f: "f \<in> set challenge_fields" by simp_all
  from accepted_challenge_field [OF a f] obtain v where
    "map_of d' f = Some (PStr (sanitize_input (PStr (py_str v))))" by auto
  moreover have "dropWhile is_space (sanitize_input (PStr (py_str v))) = sanitize_input (PStr (py_str v))"
    by (simp only: sanitize_input_def strip_no_leading)
  moreover have "dropWhile is_space (rev (sanitize_input (PStr (py_str v)))) =
      rev (sanitize_input (PStr (py_str v)))"
    by (simp only: sanitize_input_def strip_no_trailing)
  ultimately show "\<exists>s. map_of d' f = Some (PStr s) \<and> dropWhile is_space s = s \<and>
              dropWhile is_space (rev s) = rev s" by blast
qed

theorem sanitized_fields_are_trimmed_witness:
  "\<exists>s. map_of [(''playerId'', PStr ''P1''), (''playerName'', PStr []),
                (''challengeId'', PStr ''C01'')] ''playerName'' = Some (PStr s) \<and>
       dropWhile is_space s = s \<and> dropWhile is_space (rev s) = rev s \<and> s = []"
proof -
  let ?d = "[(''playerId'', PStr ''P1''), (''playerName'', PStr '' ''),
             (''challengeId'', PStr ''C01'')]"
  let ?d' = "[(''playerId'', PStr ''P1''), (''playerName'', PStr []),
              (''challengeId'', PStr ''C01'')]"
  have 1: "validate_challenge_data (Some ?d) = ((True, []), Some ?d')"
    using sanitized_fields_are_trimmed by (rule conjunct1)
  have 2: "''playerName'' \<in> set challenge_fields" by (simp add: challenge_fields_def)
  have "\<exists>s. map_of ?d' ''playerName'' = Some (PStr s) \<and> dropWhile is_space s = s \<and>
             dropWhile is_space (rev s) = rev s"
    using sanitized_fields_are_trimmed 1 2 by blast
  then show ?thesis by simp
qed

section \<open>Claims about the store client\<close>



text \<open>
  C5: \<open>log_challenge\<close> only ever appends. A call that succeeds adds exactly one row below
  the existing rows and a call that fails leaves the table as it was, so two successive
  successful calls with the same arguments leave the old rows in place and add two rows,
  whatever the table holds already.
\<close>

theorem log_challenge_appends:
  "(log_challenge now pid name cid status submission st = (ok, st') \<longrightarrow>
      playerlog st' =
        (if ok then playerlog st @ [[PStr now, PStr (py_str pid), PStr (py_str name),
                                    PStr (py_str cid), status, submission]]
         else playerlog st)) \<and>
   (log_challenge now1 pid name cid status submission st = (True, st1) \<and>
    log_challenge now2 pid name cid status submission st1 = (True, st2) \<longrightarrow>
      playerlog st2 =
        playerlog st @ [[PStr now1, PStr (py_str pid), PStr (py_str name),
                         PStr (py_str cid), status, submission],
                        [PStr now2, PStr (py_str pid), PStr (py_str name),
                         PStr (py_str cid), status, submission]] \<and>
      length (playerlog st2) = length (playerlog st) + 2)"
proof -
  have step: "playerlog b =
        (if k then playerlog a @ [[PStr t, PStr (py_str pid), PStr (py_str name),
                                    PStr (py_str cid), status, submission]]
         else playerlog a)"
    if "log_challenge t pid name cid status submission a = (k, b)" for t a k b
  proof -
    obtain ok1 a1 where w: "get_worksheet a = (ok1, a1)" by (cases "get_worksheet a") auto
    show ?thesis
    proof (cases ok1)
      case True
      with that w have "append_row [PStr t, PStr (py_str pid), PStr (py_str name),
                                    PStr (py_str cid), status, submission] a1 = (k, b)"
        by (simp add: log_challenge_def)
      from append_row_cases [OF this] get_worksheet_cases(1) [OF w] show ?thesis by simp
    next
      case False
      with that w get_worksheet_cases(1) [OF w] show ?thesis
        by (auto simp: log_challenge_def)
    qed
  qed
  show ?thesis
  proof (intro conjI impI)
    assume "log_challenge now pid name cid status submission st = (ok, st')"
    from step [OF this] show "playerlog st' =
        (if ok then playerlog st @ [[PStr now, PStr (py_str pid), PStr (py_str name),
                                    PStr (py_str cid), status, submission]]
         else playerlog st)" .
  next
    assume a: "log_challenge now1 pid name cid status submission st = (True, st1) \<and>
      log_challenge now2 pid name cid status submission st1 = (True, st2)"
    with step [of now1 st True st1] step [of now2 st1 True st2]
    show "playerlog st2 =
        playerlog st @ [[PStr now1, PStr (py_str pid), PStr (py_str name),
                         PStr (py_str cid), status, submission],
                        [PStr now2, PStr (py_str pid), PStr (py_str name),
                         PStr (py_str cid), status, submission]]" by simp
    then show "length (playerlog st2) = length (playerlog st) + 2" by simp
  qed
qed

theorem log_challenge_appends_witness:
  "length (playerlog (snd (log_challenge ''2024-05-03 08:00:01'' (PStr ''7'') (PStr ''Alice'')
             (PStr ''C01'') (PStr ''Received'') (PStr [])
             (snd (log_challenge ''2024-05-03 08:00:00'' (PStr ''7'') (PStr ''Alice'')
                     (PStr ''C01'') (PStr ''Received'') (PStr []) example_store))))) =
   length (playerlog example_store) + 2"
proof -
  let ?s1 = "snd (log_challenge ''2024-05-03 08:00:00'' (PStr ''7'') (PStr ''Alice'')
                     (PStr ''C01'') (PStr ''Received'') (PStr []) example_store)"
  let ?s2 = "snd (log_challenge ''2024-05-03 08:00:01'' (PStr ''7'') (PStr ''Alice'')
                     (PStr ''C01'') (PStr ''Received'') (PStr []) ?s1)"
  have "fst (log_challenge ''2024-05-03 08:00:00'' (PStr ''7'') (PStr ''Alice'')
                     (PStr ''C01'') (PStr ''Received'') (PStr []) example_store)"
    by code_simp
  then have 1: "log_challenge ''2024-05-03 08:00:00'' (PStr ''7'') (PStr ''Alice'')
                     (PStr ''C01'') (PStr ''Received'') (PStr []) example_store = (True, ?s1)"
    by (simp add: prod_eq_iff)
  have "fst (log_challenge ''2024-05-03 08:00:01'' (PStr ''7'') (PStr ''Alice'')
                     (PStr ''C01'') (PStr ''Received'') (PStr []) ?s1)"
    by code_simp
  then have 2: "log_challenge ''2024-05-03 08:00:01'' (PStr ''7'') (PStr ''Alice'')
                     (PStr ''C01'') (PStr ''Received'') (PStr []) ?s1 = (True, ?s2)"
    by (simp add: prod_eq_iff)
  from log_challenge_appends [where pid = "PStr ''7''" and name = "PStr ''Alice''"
        and cid = "PStr ''C01''" and status = "PStr ''Received''" and submission = "PStr []"
        and ?now1.0 = "''2024-05-03 08:00:00''" and st = example_store and ?st1.0 = ?s1
        and ?now2.0 = "''2024-05-03 08:00:01''" and ?st2.0 = ?s2] 1 2
  show ?thesis by blast
qed






text \<open>
  C10: \<open>update_submission\<close> writes the matched row with two single-cell writes, Status
  (column 5) first and SubmissionText (column 6) second. If the requests up to the first
  write succeed and the second write raises, the function returns \<open>False\<close> and the
  table differs from the old one only in the Status cell of the matched row, which holds
  the new status; the SubmissionText cell of that row still holds its old value.
\<close>

theorem update_submission_not_atomic:
  assumes "\<not> raises_within (open_requests st + 2) st" and "raises_at (open_requests st + 2) st"
    and "all_records (playerlog st) = pre @ r # post" and "row_matches pid cid r"
    and "\<forall>x \<in> set post. \<not> row_matches pid cid x"
  shows "\<exists>st'. update_submission pid cid submission status st = (False, st') \<and>
           playerlog st' =
             (playerlog st)[Suc (length pre) :=
                set_cell 4 status (playerlog st ! Suc (length pre))] \<and>
           cell (playerlog st' ! Suc (length pre)) 4 = status \<and>
           cell (playerlog st' ! Suc (length pre)) 5 =
             cell (playerlog st ! Suc (length pre)) 5"
proof -
  let ?out = "update_submission pid cid submission status st"
  let ?k = "Suc (length pre)"
  from update_submission_match(3) [OF assms(3,4,5) assms(1,2)]
  have f: "fst ?out = False"
    and p: "playerlog (snd ?out) = (playerlog st)[?k := set_cell 4 status (playerlog st ! ?k)]"
    by simp_all
  have "length (all_records (playerlog st)) = length (playerlog st) - 1"
    by (rule length_all_records)
  then have k: "?k < length (playerlog st)" by (simp add: assms(3))
  have row: "playerlog (snd ?out) ! ?k = set_cell 4 status (playerlog st ! ?k)"
    using p k by simp
  have "?out = (False, snd ?out)" using f by (simp add: prod_eq_iff)
  moreover have "cell (playerlog (snd ?out) ! ?k) 4 = status"
    by (simp add: row cell_set_cell)
  moreover have "cell (playerlog (snd ?out) ! ?k) 5 = cell (playerlog st ! ?k) 5"
    by (simp add: row cell_set_cell)
  ultimately show ?thesis using p by blast
qed

theorem update_submission_not_atomic_witness:
  "\<exists>st'. update_submission (PStr ''7'') (PStr ''C01'') (PStr ''done'') (PStr ''Submitted'')
            (example_store\<lparr>outages := [False, False, False, False, True]\<rparr>) = (False, st') \<and>
         cell (playerlog st' ! 3) 4 = PStr ''Submitted'' \<and>
         cell (playerlog st' ! 3) 5 = PStr ''draft''"
proof -
  let ?st = "example_store\<lparr>outages := [False, False, False, False, True]\<rparr>"
  let ?h = "[PStr ''Timestamp'', PStr ''PlayerID'', PStr ''PlayerName'', PStr ''ChallengeID'',
             PStr ''Status'', PStr ''SubmissionText'']"
  let ?pre = "[record_of ?h [PStr ''2024-05-02 10:00:00'', PInt 7, PStr ''Alice'',
                 PStr ''C01'', PStr ''Received'', PStr []],
               record_of ?h [PStr ''2024-05-02 11:00:00'', PStr ''P2'', PStr ''Bob'',
                 PStr ''C01'', PStr ''Received'', PStr []]]"
  let ?r = "record_of ?h [PStr ''2024-05-01 09:00:00'', PStr ''7'', PStr ''Alice'',
                 PStr ''C01'', PStr ''In Progress'', PStr ''draft'']"
  have 1: "\<not> raises_within (open_requests ?st + 2) ?st"
    by (simp add: raises_within_def open_requests_def example_store_def)
  have 2: "raises_at (open_requests ?st + 2) ?st"
    by (simp add: raises_at_def open_requests_def example_store_def)
  have 3: "all_records (playerlog ?st) = ?pre @ ?r # []"
    by (simp add: example_store_def all_records_def)
  have 4: "row_matches (PStr ''7'') (PStr ''C01'') ?r" by code_simp
  have 5: "\<forall>x \<in> set []. \<not> row_matches (PStr ''7'') (PStr ''C01'') x" by simp
  have 6: "cell (playerlog ?st ! 3) 5 = PStr ''draft''"
    by (simp add: example_store_def cell_def)
  from update_submission_not_atomic [OF 1 2 3 4 5, of "PStr ''done''" "PStr ''Submitted''"]
  obtain st' where
    "update_submission (PStr ''7'') (PStr ''C01'') (PStr ''done'') (PStr ''Submitted'') ?st =
       (False, st')"
    "cell (playerlog st' ! Suc (length ?pre)) 4 = PStr ''Submitted''"
    "cell (playerlog st' ! Suc (length ?pre)) 5 = cell (playerlog ?st ! Suc (length ?pre)) 5"
    by blast
  moreover have "Suc (length ?pre) = 3" by simp
  ultimately show ?thesis using 6 by (intro exI [of _ st']) (simp add: numeral_3_eq_3)
qed

end
